theory Spec2Isabelle
  imports Main "HOL-Library.Word"
begin

chapter \<open>The embedding\<close>

section \<open>Machine integers and pointers of the bare-metal demos\<close>

text \<open>
  The allocators of the corpus keep their bump offset and take their size argument as a
  C \<open>int\<close>. The sum \<open>offset + size\<close> is formed in 32-bit two's complement, which is what
  the RISC-V targets of the repository compute on signed overflow; \<open>wrap32\<close> writes that
  wrap-around out on mathematical integers.
\<close>

definition wrap32 :: "int \<Rightarrow> int" where
  "wrap32 x = (x + 2147483648) mod 4294967296 - 2147483648"

text \<open>
  A pointer handed out by an allocator is either the null pointer or the address of an
  element of the file's static byte array, identified by the element's index. Two
  pointers compare equal exactly when they are the same address.
\<close>

datatype ptr = Null | Elem int

text \<open>Two blocks \<open>[b, b + n)\<close>, each given as (base index, size), share a byte.\<close>

definition ranges_overlap :: "int \<times> int \<Rightarrow> int \<times> int \<Rightarrow> bool" where
  "ranges_overlap r1 r2 =
     (max (fst r1) (fst r2) < min (fst r1 + snd r1) (fst r2 + snd r2))"

section \<open>\<open>simple_malloc\<close> of cheri-limits-baremetal.c\<close>

text \<open>
  \<^verbatim>\<open>
  static char heap_memory[8192];
  static int heap_offset = 0;
  void* simple_malloc(int size) {
      if (heap_offset + size >= 8192) return 0;
      void* ptr = &heap_memory[heap_offset];
      heap_offset += size;
      return ptr;
  }
  \<close>
  The state is the value of \<open>heap_offset\<close>; the function returns the pointer and the new
  offset.
\<close>

definition simple_malloc :: "int \<Rightarrow> int \<Rightarrow> ptr \<times> int" where
  "simple_malloc sz heap_offset =
     (if wrap32 (heap_offset + sz) \<ge> 8192 then (Null, heap_offset)
      else (Elem heap_offset, wrap32 (heap_offset + sz)))"

text \<open>
  A run of calls, as the tests of the file make them one after the other. Each
  successful call contributes the pair (base index, requested size) of the block it
  handed out; a refused call contributes nothing.
\<close>

fun malloc_seq :: "int list \<Rightarrow> int \<Rightarrow> (int \<times> int) list" where
  "malloc_seq [] h = []"
| "malloc_seq (n # ns) h =
     (case simple_malloc n h of
        (Null, h') \<Rightarrow> malloc_seq ns h'
      | (Elem b, h') \<Rightarrow> (b, n) # malloc_seq ns h')"

text \<open>
  Blocks laid out one after the other from \<open>lo\<close> upwards: each starts at or after the
  end of the one before it.
\<close>

fun chained :: "int \<Rightarrow> (int \<times> int) list \<Rightarrow> bool" where
  "chained lo [] = True"
| "chained lo (r # rs) = (lo \<le> fst r \<and> 0 \<le> snd r \<and> chained (fst r + snd r) rs)"

section \<open>\<open>cheri_malloc\<close> of advanced_protections_cheri_freestanding.c\<close>

text \<open>
  The same bump allocator over a 1024-byte array, with the guard written with \<open>>\<close>:
  \<^verbatim>\<open>
  static cap_ptr_t cheri_malloc(int size) {
      if (cheri_heap_offset + size > 1024) return 0;
      cap_ptr_t ptr = (cap_ptr_t)&cheri_global_heap[cheri_heap_offset];
      cheri_heap_offset += size;
      return cheri_bounds_set(ptr, size);
  }
  \<close>
  Its \<open>cheri_bounds_set\<close> returns the pointer it is given.
\<close>

definition freestanding_cheri_malloc :: "int \<Rightarrow> int \<Rightarrow> ptr \<times> int" where
  "freestanding_cheri_malloc sz cheri_heap_offset =
     (if wrap32 (cheri_heap_offset + sz) > 1024 then (Null, cheri_heap_offset)
      else (Elem cheri_heap_offset, wrap32 (cheri_heap_offset + sz)))"

section \<open>\<open>allocate_packet\<close> of real-world-network-stress.c\<close>

text \<open>
  \<^verbatim>\<open>
  static char packet_buffer[MAX_PACKET_SIZE * 100];   /* 1500 * 100 bytes */
  static int buffer_offset = 0;
  cap_ptr_t allocate_packet(int size) {
      if (buffer_offset + size > sizeof(packet_buffer)) {
          buffer_offset = 0;  // Wrap around (circular buffer)
      }
      void* ptr = &packet_buffer[buffer_offset];
      buffer_offset += size;
      return cheri_bounds_set(ptr, size);
  }
  \<close>
  The \<open>int\<close> sum is converted to the unsigned \<open>size_t\<close> for the comparison with
  \<open>sizeof\<close>, so a negative sum compares as a huge value; \<open>mod 2 ^ 64\<close> writes the
  conversion out. The call never fails.
\<close>

definition allocate_packet :: "int \<Rightarrow> int \<Rightarrow> ptr \<times> int" where
  "allocate_packet sz buffer_offset =
     (let off = (if wrap32 (buffer_offset + sz) mod 18446744073709551616 > 150000
                 then 0 else buffer_offset)
      in (Elem off, wrap32 (off + sz)))"

fun packet_seq :: "int list \<Rightarrow> int \<Rightarrow> (int \<times> int) list" where
  "packet_seq [] h = []"
| "packet_seq (n # ns) h =
     (case allocate_packet n h of
        (Null, h') \<Rightarrow> packet_seq ns h'
      | (Elem b, h') \<Rightarrow> (b, n) # packet_seq ns h')"

section \<open>The tracked allocator of use_after_free_cheri_baremetal.c\<close>

text \<open>
  \<^verbatim>\<open>
  static char memory_pool[1024];
  static int next_alloc = 0;
  static cap_ptr_t allocated_caps[32]; // Track allocated capabilities
  static int num_caps = 0;
  \<close>
  \<open>num_caps\<close> starts at 0 and only ever grows by one, so it is a natural number here.
\<close>

record cheri_heap =
  next_alloc :: int
  allocated_caps :: "ptr list"
  num_caps :: nat

definition initial_heap :: cheri_heap where
  "initial_heap = \<lparr>next_alloc = 0, allocated_caps = replicate 32 Null, num_caps = 0\<rparr>"

text \<open>
  The capability helpers of the file are stand-ins, in both branches of its \<open>#ifdef\<close>:
  \<^verbatim>\<open>
  static inline cap_ptr_t cheri_bounds_set(void *ptr, unsigned long size) {
      return (cap_ptr_t)ptr;
  }
  static inline int cheri_tag_get(cap_ptr_t cap) {
      // In real CHERI, this would check the capability tag bit
      return 1; // Assume valid initially
  }
  static inline void cheri_tag_clear(cap_ptr_t *cap) {
      // For demonstration, we simulate by setting to null
      *cap = (cap_ptr_t)0;
  }
  \<close>
\<close>

definition cheri_bounds_set :: "ptr \<Rightarrow> int \<Rightarrow> ptr" where
  "cheri_bounds_set p sz = p"

definition cheri_tag_get :: "ptr \<Rightarrow> int" where
  "cheri_tag_get cap = 1"

text \<open>
  \<^verbatim>\<open>
  cap_ptr_t cheri_malloc(int size) {
      if (next_alloc + size >= 1024) return (cap_ptr_t)0; // Out of memory
      void* ptr = &memory_pool[next_alloc];
      next_alloc += size;
      cap_ptr_t cap = cheri_bounds_set(ptr, size);
      if (num_caps < 32) {
          allocated_caps[num_caps] = cap;
          num_caps++;
      }
      return cap;
  }
  \<close>
\<close>

definition cheri_malloc :: "int \<Rightarrow> cheri_heap \<Rightarrow> ptr \<times> cheri_heap" where
  "cheri_malloc sz s =
     (if wrap32 (next_alloc s + sz) \<ge> 1024 then (Null, s)
      else
        let cap = cheri_bounds_set (Elem (next_alloc s)) sz;
            s1 = s\<lparr>next_alloc := wrap32 (next_alloc s + sz)\<rparr>
        in if num_caps s < 32
           then (cap, s1\<lparr>allocated_caps := (allocated_caps s)[num_caps s := cap],
                          num_caps := num_caps s + 1\<rparr>)
           else (cap, s1))"

text \<open>
  \<^verbatim>\<open>
  void cheri_free(cap_ptr_t ptr) {
      if (ptr == (cap_ptr_t)0) return;
      for (int i = 0; i < num_caps; i++) {
          if (allocated_caps[i] == ptr) {
              cheri_tag_clear(&allocated_caps[i]);
              break;
          }
      }
  }
  \<close>
  \<open>free_scan\<close> is the loop from index \<open>i\<close>; clearing the tag of a table entry stores the
  null pointer in it. The function returns nothing: its whole effect is on the table.
\<close>

function free_scan :: "ptr \<Rightarrow> nat \<Rightarrow> nat \<Rightarrow> ptr list \<Rightarrow> ptr list" where
  "free_scan p i n caps =
     (if i < n
      then (if caps ! i = p then caps[i := Null] else free_scan p (Suc i) n caps)
      else caps)"
  by pat_completeness auto
termination
  by (relation "measure (\<lambda>(p, i, n, caps). n - i)") auto

declare free_scan.simps [simp del]

definition cheri_free :: "ptr \<Rightarrow> cheri_heap \<Rightarrow> cheri_heap" where
  "cheri_free p s =
     (if p = Null then s
      else s\<lparr>allocated_caps := free_scan p 0 (num_caps s) (allocated_caps s)\<rparr>)"

text \<open>Sequences of calls on the allocator, as the demo functions of the file make them.\<close>

datatype heap_op = Malloc int | Free ptr

fun exec_op :: "heap_op \<Rightarrow> cheri_heap \<Rightarrow> cheri_heap" where
  "exec_op (Malloc n) s = snd (cheri_malloc n s)"
| "exec_op (Free p) s = cheri_free p s"

fun run_ops :: "heap_op list \<Rightarrow> cheri_heap \<Rightarrow> cheri_heap" where
  "run_ops [] s = s"
| "run_ops (x # xs) s = run_ops xs (exec_op x s)"

text \<open>
  Every request of a history is for at least one byte and for fewer than \<open>2^31 - 1024\<close>
  bytes, so that the \<open>int\<close> sum \<open>next_alloc + size\<close> cannot overflow.
\<close>

definition sizes_in_range :: "heap_op list \<Rightarrow> bool" where
  "sizes_in_range ops =
     (\<forall>x\<in>set ops. case x of Malloc m \<Rightarrow> 0 < m \<and> m < 2147482624 | Free q \<Rightarrow> True)"

text \<open>
  What holds of the allocator's state after such a history: the table has its 32 slots,
  at most 32 are in use, and every slot in use is null or the address of a byte below
  \<open>next_alloc\<close>.
\<close>

definition heap_inv :: "cheri_heap \<Rightarrow> bool" where
  "heap_inv s \<longleftrightarrow>
     length (allocated_caps s) = 32 \<and>
     num_caps s \<le> 32 \<and> 0 \<le> next_alloc s \<and> next_alloc s < 1024 \<and>
     (\<forall>i<num_caps s. allocated_caps s ! i = Null
                       \<or> (\<exists>k. allocated_caps s ! i = Elem k \<and> k < next_alloc s))"

text \<open>A capability with no equal entry among the slots in use.\<close>

definition untracked :: "ptr \<Rightarrow> cheri_heap \<Rightarrow> bool" where
  "untracked cap s \<longleftrightarrow> (\<forall>i<num_caps s. allocated_caps s ! i \<noteq> cap)"

section \<open>The string copies of the buffer-overflow demos\<close>

text \<open>
  Memory is a map from 64-bit addresses to characters, and a \<open>char *\<close> is an address in
  it: source and destination of a copy are pointers into the same memory, so a copy
  reads what it has written where the two overlap. Pointer arithmetic wraps at 64 bits.
  A loop that never meets a NUL does not return: its value is \<open>None\<close>.

  buffer_overflow_cheri_baremetal.c:
  \<^verbatim>\<open>
  int simple_strlen(const char *str) {
      int len = 0;
      while (str[len] != '\0') { len++; }
      return len;
  }
  \<close>
  The counter is a C \<open>int\<close>: it wraps at 32 bits, and \<open>str[len]\<close> is the byte at \<open>str\<close> plus
  the sign-extended counter.
\<close>

type_synonym memory = "64 word \<Rightarrow> char"

partial_function (option) strlen_loop :: "memory \<Rightarrow> 64 word \<Rightarrow> int \<Rightarrow> int option" where
  "strlen_loop m str len =
     (if m (str + of_int len) = CHR 0x00 then Some len
      else strlen_loop m str (wrap32 (len + 1)))"

definition simple_strlen :: "memory \<Rightarrow> 64 word \<Rightarrow> int option" where
  "simple_strlen m str = strlen_loop m str 0"

text \<open>
  test-off-by-one-baremetal.c:
  \<^verbatim>\<open>
  // Simple string copy function (vulnerable)
  void simple_strcpy(char *dest, const char *src) {
      while (*src != '\0') { *dest = *src; dest++; src++; }
      *dest = '\0';
  }
  \<close>
  \<open>copy_loop\<close> is the loop with the store of the terminator that follows it; it returns
  the memory it leaves.
\<close>

partial_function (option) copy_loop :: "memory \<Rightarrow> 64 word \<Rightarrow> 64 word \<Rightarrow> memory option" where
  "copy_loop m dest src =
     (if m src = CHR 0x00 then Some (m(dest := CHR 0x00))
      else copy_loop (m(dest := m src)) (dest + 1) (src + 1))"

definition simple_strcpy :: "memory \<Rightarrow> 64 word \<Rightarrow> 64 word \<Rightarrow> memory option" where
  "simple_strcpy m dest src = copy_loop m dest src"

text \<open>
  buffer_overflow_cheri_baremetal.c, whose \<open>cheri_length_get\<close> is the constant 8 in both
  branches of the \<open>#ifdef\<close>:
  \<^verbatim>\<open>
  void cheri_strcpy(char *dest, const char *src) {
      int src_len = simple_strlen(src);
  #ifdef __CHERI__
      unsigned long dest_bounds = cheri_length_get((cap_ptr_t)dest);
      if (src_len >= dest_bounds) {
          // In real CHERI hardware, this would trigger a capability exception
          // For bare metal demonstration, we just return without copying
          return;
      }
  #endif
      while (*src != '\0') { *dest = *src; dest++; src++; }
      *dest = '\0';
  }
  \<close>
  The first argument says whether \<open>__CHERI__\<close> is defined. For the comparison the \<open>int\<close>
  length is converted to \<open>unsigned long\<close>, so a negative length compares as a huge
  value; \<open>mod 2 ^ 64\<close> writes the conversion out. The copy loop is the one of
  \<open>simple_strcpy\<close>. The function returns nothing in either case: the result is the memory
  it leaves.
\<close>

definition cheri_length_get :: "64 word \<Rightarrow> nat" where
  "cheri_length_get cap = 8"

definition cheri_strcpy :: "bool \<Rightarrow> memory \<Rightarrow> 64 word \<Rightarrow> 64 word \<Rightarrow> memory option" where
  "cheri_strcpy cheri m dest src =
     (case simple_strlen m src of
        None \<Rightarrow> None
      | Some src_len \<Rightarrow>
          if cheri \<and> nat (src_len mod 18446744073709551616) \<ge> cheri_length_get dest
          then Some m
          else copy_loop m dest src)"

text \<open>
  Memory holds a string of \<open>k\<close> characters at \<open>src\<close>: \<open>k\<close> bytes other than NUL, then the
  NUL.
\<close>

definition c_string :: "memory \<Rightarrow> 64 word \<Rightarrow> nat \<Rightarrow> bool" where
  "c_string m src k \<longleftrightarrow>
     (\<forall>i<k. m (src + of_nat i) \<noteq> CHR 0x00) \<and> m (src + of_nat k) = CHR 0x00"

text \<open>
  The \<open>k + 1\<close> bytes from \<open>dest\<close> and the \<open>k + 1\<close> bytes from \<open>src\<close> have no address in
  common.
\<close>

definition apart :: "64 word \<Rightarrow> 64 word \<Rightarrow> nat \<Rightarrow> bool" where
  "apart dest src k \<longleftrightarrow> (\<forall>i\<le>k. \<forall>j\<le>k. dest + of_nat i \<noteq> src + of_nat j)"

text \<open>
  The memory of a test: the characters of a string literal and its terminator stored
  from address \<open>a\<close>.
\<close>

fun place :: "memory \<Rightarrow> 64 word \<Rightarrow> string \<Rightarrow> memory" where
  "place m a [] = m(a := CHR 0x00)"
| "place m a (c # cs) = place (m(a := c)) (a + 1) cs"

section \<open>The overflowing end address of test-integer-overflow.c\<close>

text \<open>
  \<^verbatim>\<open>
  uintptr_t base = 0x80000000;
  size_t size = SIZE_MAX - base + 1000;
  uintptr_t end_calc = base + size;
  if (end_calc < base) { /* Overflow detected: end < base (wrapped around) */ }
  \<close>
\<close>

definition end_calc :: "64 word \<Rightarrow> 64 word \<Rightarrow> 64 word" where
  "end_calc base sz = base + sz"

section \<open>The capability-checked memory model of the specification\<close>

text \<open>
  The corpus leaves the checks on a dereference to the CHERI hardware: its sources hold
  no function that reads or writes through a bounded capability, narrows one or moves
  its cursor. These operations are modelled from the specification's sections 3, 4 and 6.
  Sizes, bases and offsets are unbounded integers, the domain in which the
  specification asks the sums of the bounds check to be formed.
\<close>

datatype fault =
    OutOfMemory | InvalidCapability | BoundsViolation | PermissionDenied
  | DoubleFree | MonotonicityViolation | InvalidPermissions

datatype permission = PermRead | PermWrite | PermExecute

text \<open>
  Modelled from the spec: the Capability of section 3, which the sources do not declare:
  tag, base (relative to its allocation), length, cursor offset (relative to the base),
  permission set and the id of the allocation it was derived from.
\<close>

record capability =
  tag :: bool
  base :: nat
  cap_length :: nat
  offset :: int
  permissions :: "permission set"
  alloc_id :: nat

text \<open>
  Modelled from the spec: the allocation record of section 3 (base offset into the
  Arena, length, liveness flag); its id is its position in the table.
\<close>

record allocation =
  alloc_base :: nat
  alloc_length :: nat
  live :: bool

text \<open>
  Modelled from the spec: the Arena (byte store of fixed capacity and bump offset) with
  the table of allocation records of section 4.3.
\<close>

record memory_model =
  arena_bytes :: "8 word list"
  bump :: nat
  table :: "allocation list"

definition new_arena :: "nat \<Rightarrow> memory_model" where
  "new_arena capacity = \<lparr>arena_bytes = replicate capacity 0, bump = 0, table = []\<rparr>"

definition remaining :: "memory_model \<Rightarrow> nat" where
  "remaining m = length (arena_bytes m) - bump m"

text \<open>
  Modelled from the spec: \<open>allocate(size)\<close> of sections 4.1 and 4.2, absent from the
  sources as an operation that returns a capability with bounds: it "fails if size would
  exceed remaining capacity" and otherwise "returns a fresh Capability: tag=true, base=0
  (relative), length=size, offset=0, permissions=ALL, allocation id = new id".
\<close>

definition allocate :: "nat \<Rightarrow> memory_model \<Rightarrow> fault + capability \<times> memory_model" where
  "allocate sz m =
     (if sz > remaining m then Inl OutOfMemory
      else Inr (\<lparr>tag = True, base = 0, cap_length = sz, offset = 0,
                  permissions = {PermRead, PermWrite, PermExecute},
                  alloc_id = length (table m)\<rparr>,
                m\<lparr>bump := bump m + sz,
                   table := table m @ [\<lparr>alloc_base = bump m, alloc_length = sz, live = True\<rparr>]\<rparr>))"

text \<open>
  Modelled from the spec: \<open>is_live\<close> of section 4.3 and \<open>is_valid\<close> of section 6 ("pure
  predicate: tag and live; does NOT check offset bounds"), absent from the sources.
\<close>

definition is_live :: "nat \<Rightarrow> memory_model \<Rightarrow> bool" where
  "is_live i m = (i < length (table m) \<and> live (table m ! i))"

definition is_valid :: "capability \<Rightarrow> memory_model \<Rightarrow> bool" where
  "is_valid cap m = (tag cap \<and> is_live (alloc_id cap) m)"

text \<open>
  Modelled from the spec: \<open>offset_by(cap, delta)\<close> of section 4.2, absent from the sources:
  "produces a new capability with offset += delta and unchanged
  base/length/tag/permissions".
\<close>

definition offset_by :: "capability \<Rightarrow> int \<Rightarrow> capability" where
  "offset_by cap delta = cap\<lparr>offset := offset cap + delta\<rparr>"

text \<open>
  Modelled from the spec: \<open>narrow(cap, new_base_rel, new_len)\<close> of section 4.2, absent from
  the sources: it "requires cap.tag==true, new_base_rel >= 0, new_base_rel + new_len <=
  cap.length", its only fault is BoundsViolation, and it "produces a new capability with
  tag=true, tighter bounds, same permissions, same allocation id". The specification
  does not say where the cursor of the result stands; it is put at the new base, as in a
  fresh capability.
\<close>

definition narrow :: "capability \<Rightarrow> int \<Rightarrow> nat \<Rightarrow> fault + capability" where
  "narrow cap new_base_rel new_len =
     (if tag cap \<and> new_base_rel \<ge> 0 \<and> new_base_rel + int new_len \<le> int (cap_length cap)
      then Inr (cap\<lparr>tag := True, base := base cap + nat new_base_rel,
                     cap_length := new_len, offset := 0\<rparr>)
      else Inl BoundsViolation)"

text \<open>
  Modelled from the spec: \<open>restrict_permissions(cap, subset)\<close> of section 4.2, absent from
  the sources: it "requires subset \<open>\<subseteq>\<close> cap.permissions; result keeps bounds, narrows
  permissions, tag unchanged", and faults with InvalidPermissions otherwise.
\<close>

definition restrict_permissions :: "capability \<Rightarrow> permission set \<Rightarrow> fault + capability" where
  "restrict_permissions cap perms =
     (if perms \<subseteq> permissions cap then Inr (cap\<lparr>permissions := perms\<rparr>)
      else Inl InvalidPermissions)"

text \<open>
  One successful derivation step, and the capabilities reachable from one by any number
  of them.
\<close>

inductive derives :: "capability \<Rightarrow> capability \<Rightarrow> bool" where
  derives_refl: "derives c c"
| derives_narrow: "derives c d \<Longrightarrow> narrow d b l = Inr e \<Longrightarrow> derives c e"
| derives_restrict: "derives c d \<Longrightarrow> restrict_permissions d ps = Inr e \<Longrightarrow> derives c e"

text \<open>
  The absolute bounds of a capability in the Arena: the base of its allocation plus its
  own relative base, and the address its cursor denotes.
\<close>

definition base_abs :: "capability \<Rightarrow> memory_model \<Rightarrow> nat" where
  "base_abs cap m = alloc_base (table m ! alloc_id cap) + base cap"

definition access_start :: "capability \<Rightarrow> memory_model \<Rightarrow> nat" where
  "access_start cap m = base_abs cap m + nat (offset cap)"

text \<open>
  Modelled from the spec: the bounds check of \<open>read\<close> and \<open>write\<close> in section 4.4, "fails
  with BoundsViolation if offset < 0 || offset+len > length", with the sum formed on
  unbounded integers.
\<close>

definition out_of_bounds :: "capability \<Rightarrow> nat \<Rightarrow> bool" where
  "out_of_bounds cap len = (offset cap < 0 \<or> offset cap + int len > int (cap_length cap))"

text \<open>
  Modelled from the spec: \<open>read(cap, len)\<close> of section 4.4, absent from the sources: it
  "fails with InvalidCapability if tag is false or allocation is dead; fails with
  BoundsViolation if offset < 0 || offset+len > length; otherwise returns bytes from Arena
  at allocation.base + cap.base + cap.offset .. +len".
\<close>

definition read :: "capability \<Rightarrow> nat \<Rightarrow> memory_model \<Rightarrow> fault + 8 word list" where
  "read cap len m =
     (if \<not> is_valid cap m then Inl InvalidCapability
      else if out_of_bounds cap len then Inl BoundsViolation
      else Inr (take len (drop (access_start cap m) (arena_bytes m))))"

text \<open>The byte store with \<open>data\<close> written in place from address \<open>start\<close>.\<close>

definition store :: "8 word list \<Rightarrow> nat \<Rightarrow> 8 word list \<Rightarrow> 8 word list" where
  "store bytes start data =
     map (\<lambda>i. if start \<le> i \<and> i < start + length data then data ! (i - start) else bytes ! i)
       [0 ..< length bytes]"

text \<open>
  Modelled from the spec: \<open>write(cap, bytes)\<close> of section 4.4, absent from the sources:
  "same validity/bounds checks as read, plus PermissionDenied if WRITE not in
  permissions; side effect mutates Arena bytes in place". (\<open>write\<close> is a keyword of
  Isabelle, hence the suffix.)
\<close>

definition write_cap :: "capability \<Rightarrow> 8 word list \<Rightarrow> memory_model \<Rightarrow> fault + memory_model" where
  "write_cap cap data m =
     (if \<not> is_valid cap m then Inl InvalidCapability
      else if out_of_bounds cap (length data) then Inl BoundsViolation
      else if PermWrite \<notin> permissions cap then Inl PermissionDenied
      else Inr (m\<lparr>arena_bytes := store (arena_bytes m) (access_start cap m) data\<rparr>))"

text \<open>
  The bounds of a capability lie inside the byte store, as they do for every capability
  obtained from \<open>allocate\<close> and narrowed from there.
\<close>

definition within_arena :: "capability \<Rightarrow> memory_model \<Rightarrow> bool" where
  "within_arena cap m \<longleftrightarrow> base_abs cap m + cap_length cap \<le> length (arena_bytes m)"

chapter \<open>Properties\<close>

section \<open>The bump allocators\<close>

lemma wrap32_id: "- 2147483648 \<le> x \<Longrightarrow> x < 2147483648 \<Longrightarrow> wrap32 x = x"
  by (simp add: wrap32_def)

text \<open>\<open>ranges_overlap\<close> says that the two byte ranges meet.\<close>

lemma ranges_overlap_iff:
  "ranges_overlap (b1, n1) (b2, n2) \<longleftrightarrow> {b1 ..< b1 + n1} \<inter> {b2 ..< b2 + n2} \<noteq> {}"
proof
  assume "ranges_overlap (b1, n1) (b2, n2)"
  then have "max b1 b2 \<in> {b1 ..< b1 + n1} \<inter> {b2 ..< b2 + n2}"
    by (auto simp: ranges_overlap_def)
  then show "{b1 ..< b1 + n1} \<inter> {b2 ..< b2 + n2} \<noteq> {}" by blast
next
  assume "{b1 ..< b1 + n1} \<inter> {b2 ..< b2 + n2} \<noteq> {}"
  then obtain x where "x \<in> {b1 ..< b1 + n1} \<inter> {b2 ..< b2 + n2}" by blast
  then have "b1 \<le> x \<and> x < b1 + n1 \<and> b2 \<le> x \<and> x < b2 + n2" by simp
  then show "ranges_overlap (b1, n1) (b2, n2)"
    by (simp add: ranges_overlap_def)
qed

text \<open>
  C10. A negative size passes the capacity guard: after a 64-byte block, the call
  \<open>simple_malloc(-16)\<close> returns the non-null pointer \<open>&heap_memory[64]\<close> and lowers
  \<open>heap_offset\<close> from 64 to 48, so the next 32-byte block starts at index 48, inside the
  first block \<open>[0, 64)\<close>.
\<close>

theorem simple_malloc_negative_size_overlap:
  "simple_malloc 64 0 = (Elem 0, 64)
   \<and> simple_malloc (- 16) 64 = (Elem 64, 48)
   \<and> simple_malloc 32 48 = (Elem 48, 80)
   \<and> malloc_seq [64, - 16, 32] 0 = [(0, 64), (64, - 16), (48, 32)]
   \<and> ranges_overlap (0, 64) (48, 32)"
  by (simp add: simple_malloc_def wrap32_def ranges_overlap_def)

text \<open>
  C7. The guard of \<open>simple_malloc\<close> refuses a request that fits exactly: on the fresh heap
  all 8192 bytes remain and \<open>simple_malloc(8192)\<close> returns the null pointer, as does a
  request for the last byte of a heap with one byte left; one byte less is granted, and
  so is a request for no byte. \<open>cheri_malloc\<close> of use_after_free_cheri_baremetal.c has the
  same guard over its 1024 bytes.
\<close>

theorem simple_malloc_exact_fit_refused:
  "simple_malloc 8192 0 = (Null, 0)
   \<and> simple_malloc 8191 0 = (Elem 0, 8191)
   \<and> simple_malloc 1 8191 = (Null, 8191)
   \<and> simple_malloc 0 8191 = (Elem 8191, 8191)
   \<and> cheri_malloc 1024 initial_heap = (Null, initial_heap)"
  by (simp add: simple_malloc_def cheri_malloc_def initial_heap_def wrap32_def)

text \<open>
  The allocator of advanced_protections_cheri_freestanding.c, written with \<open>>\<close>, grants
  the request that fits exactly.
\<close>

lemma freestanding_cheri_malloc_exact_fit:
  "freestanding_cheri_malloc 1024 0 = (Elem 0, 1024)"
  by (simp add: freestanding_cheri_malloc_def wrap32_def)

text \<open>
  Where no sum overflows, \<open>simple_malloc\<close> refuses exactly the requests of at least the
  remaining capacity.
\<close>

lemma simple_malloc_refuses_iff:
  "0 \<le> h \<Longrightarrow> h \<le> 8192 \<Longrightarrow> 0 \<le> n \<Longrightarrow> n < 2147475456 \<Longrightarrow>
   fst (simple_malloc n h) = Null \<longleftrightarrow> n \<ge> 8192 - h"
proof -
  assume "0 \<le> h" "h \<le> 8192" "0 \<le> n" "n < 2147475456"
  then have "wrap32 (h + n) = h + n" by (intro wrap32_id) auto
  then show ?thesis by (auto simp: simple_malloc_def)
qed

text \<open>Blocks handed out for non-negative sizes follow one another below index 8192.\<close>

lemma chained_member: "chained lo rs \<Longrightarrow> r \<in> set rs \<Longrightarrow> lo \<le> fst r \<and> 0 \<le> snd r"
proof (induction rs arbitrary: lo)
  case Nil
  then show ?case by simp
next
  case (Cons a rs)
  show ?case
  proof (cases "r = a")
    case True
    with Cons.prems show ?thesis by simp
  next
    case False
    with Cons.prems have "r \<in> set rs" and "chained (fst a + snd a) rs" by auto
    from Cons.IH[OF this(2) this(1)] Cons.prems(1) show ?thesis by simp
  qed
qed

lemma chained_nth:
  "chained lo rs \<Longrightarrow> i < j \<Longrightarrow> j < length rs \<Longrightarrow> fst (rs ! i) + snd (rs ! i) \<le> fst (rs ! j)"
proof (induction rs arbitrary: lo i j)
  case Nil
  then show ?case by simp
next
  case (Cons a rs)
  from Cons.prems obtain j' where j: "j = Suc j'" by (cases j) auto
  from Cons.prems have ch: "chained (fst a + snd a) rs" by simp
  show ?case
  proof (cases i)
    case 0
    from Cons.prems j have "rs ! j' \<in> set rs" by simp
    from chained_member[OF ch this] 0 j show ?thesis by simp
  next
    case (Suc i')
    with Cons.prems j have "i' < j'" "j' < length rs" by auto
    from Cons.IH[OF ch this] Suc j show ?thesis by simp
  qed
qed

lemma malloc_seq_chained:
  "0 \<le> h \<Longrightarrow> h < 8192 \<Longrightarrow> \<forall>n\<in>set ns. 0 \<le> n \<and> n < 2147475456 \<Longrightarrow>
   chained h (malloc_seq ns h) \<and> (\<forall>r\<in>set (malloc_seq ns h). fst r + snd r < 8192)"
proof (induction ns arbitrary: h)
  case Nil
  then show ?case by simp
next
  case (Cons n ns)
  then have n: "0 \<le> n" "n < 2147475456" and rest: "\<forall>n\<in>set ns. 0 \<le> n \<and> n < 2147475456"
    by auto
  from Cons.prems n have w: "wrap32 (h + n) = h + n" by (intro wrap32_id) auto
  show ?case
  proof (cases "h + n \<ge> 8192")
    case True
    then have "malloc_seq (n # ns) h = malloc_seq ns h"
      by (simp add: simple_malloc_def w)
    with Cons.IH[OF Cons.prems(1,2) rest] show ?thesis by (simp del: malloc_seq.simps)
  next
    case False
    then have eq: "malloc_seq (n # ns) h = (h, n) # malloc_seq ns (h + n)"
      by (simp add: simple_malloc_def w)
    from False Cons.prems n have "0 \<le> h + n" "h + n < 8192" by auto
    from Cons.IH[OF this rest] n False show ?thesis unfolding eq by simp
  qed
qed

text \<open>
  C8, as amended. For every run of \<open>simple_malloc\<close> calls from the fresh heap whose sizes
  are non-negative (and below \<open>2^31 - 8192\<close>, so that the \<open>int\<close> sum of the guard cannot
  overflow), every block handed out lies inside \<open>[0, 8192)\<close> and no two of them share a
  byte.
\<close>

theorem simple_malloc_blocks_disjoint:
  assumes "\<forall>n\<in>set ns. 0 \<le> n \<and> n < 2147475456"
  shows "(\<forall>r\<in>set (malloc_seq ns 0). 0 \<le> fst r \<and> fst r + snd r \<le> 8192)
       \<and> (\<forall>i j. i < j \<and> j < length (malloc_seq ns 0) \<longrightarrow>
             \<not> ranges_overlap (malloc_seq ns 0 ! i) (malloc_seq ns 0 ! j))"
proof -
  have ch: "chained 0 (malloc_seq ns 0)"
    and ub: "\<forall>r\<in>set (malloc_seq ns 0). fst r + snd r < 8192"
    using malloc_seq_chained[of 0 ns] assms by auto
  have "\<forall>r\<in>set (malloc_seq ns 0). 0 \<le> fst r \<and> fst r + snd r \<le> 8192"
    using chained_member[OF ch] ub by fastforce
  moreover have "\<forall>i j. i < j \<and> j < length (malloc_seq ns 0) \<longrightarrow>
             \<not> ranges_overlap (malloc_seq ns 0 ! i) (malloc_seq ns 0 ! j)"
  proof (intro allI impI)
    fix i j assume ij: "i < j \<and> j < length (malloc_seq ns 0)"
    then have "fst (malloc_seq ns 0 ! i) + snd (malloc_seq ns 0 ! i) \<le> fst (malloc_seq ns 0 ! j)"
      using chained_nth[OF ch] by blast
    then show "\<not> ranges_overlap (malloc_seq ns 0 ! i) (malloc_seq ns 0 ! j)"
      by (simp add: ranges_overlap_def)
  qed
  ultimately show ?thesis by blast
qed

text \<open>
  Five requests on the fresh heap: the fourth is refused, the others follow one another
  and end below 8192.
\<close>

theorem simple_malloc_blocks_disjoint_witness:
  "malloc_seq [100, 0, 8000, 200, 91] 0 = [(0, 100), (100, 0), (100, 8000), (8100, 91)]
   \<and> \<not> ranges_overlap (malloc_seq [100, 0, 8000, 200, 91] 0 ! 0)
                        (malloc_seq [100, 0, 8000, 200, 91] 0 ! 2)
   \<and> fst (malloc_seq [100, 0, 8000, 200, 91] 0 ! 3)
       + snd (malloc_seq [100, 0, 8000, 200, 91] 0 ! 3) \<le> 8192"
  using simple_malloc_blocks_disjoint[of "[100, 0, 8000, 200, 91]"]
  by (simp add: simple_malloc_def wrap32_def ranges_overlap_def)

text \<open>
  C8, as stated, fails on \<open>allocate_packet\<close>: the second of two 100000-byte packets does
  not fit behind the first in the 150000-byte buffer, the offset wraps to 0 and both
  packets are handed the same bytes.
\<close>

theorem allocate_packet_blocks_overlap:
  "packet_seq [100000, 100000] 0 = [(0, 100000), (0, 100000)]
   \<and> ranges_overlap (packet_seq [100000, 100000] 0 ! 0) (packet_seq [100000, 100000] 0 ! 1)"
  by (simp add: allocate_packet_def wrap32_def ranges_overlap_def)

section \<open>The tracked allocator: \<open>cheri_malloc\<close> and \<open>cheri_free\<close>\<close>

text \<open>The loop of \<open>cheri_free\<close>: it changes nothing when no entry from \<open>i\<close> on equals the
  pointer, and otherwise clears the first entry that does.\<close>

lemma free_scan_absent:
  "(\<forall>j. i \<le> j \<and> j < n \<longrightarrow> caps ! j \<noteq> p) \<Longrightarrow> free_scan p i n caps = caps"
proof (induction p i n caps rule: free_scan.induct)
  case (1 p i n caps)
  show ?case
  proof (cases "i < n")
    case True
    with "1.prems" have ne: "caps ! i \<noteq> p" by simp
    from "1.prems" have "\<forall>j. Suc i \<le> j \<and> j < n \<longrightarrow> caps ! j \<noteq> p" by simp
    from "1.IH"[OF True ne this] True ne show ?thesis
      by (subst free_scan.simps) simp
  next
    case False
    then show ?thesis by (subst free_scan.simps) simp
  qed
qed

lemma free_scan_first:
  "i \<le> k \<Longrightarrow> k < n \<Longrightarrow> caps ! k = p \<Longrightarrow> (\<forall>j. i \<le> j \<and> j < k \<longrightarrow> caps ! j \<noteq> p) \<Longrightarrow>
   free_scan p i n caps = caps[k := Null]"
proof (induction p i n caps rule: free_scan.induct)
  case (1 p i n caps)
  from "1.prems" have lt: "i < n" by simp
  show ?case
  proof (cases "i = k")
    case True
    with "1.prems" lt show ?thesis by (subst free_scan.simps) simp
  next
    case False
    with "1.prems" have ne: "caps ! i \<noteq> p" and le: "Suc i \<le> k" by auto
    from "1.prems" have "\<forall>j. Suc i \<le> j \<and> j < k \<longrightarrow> caps ! j \<noteq> p" by simp
    from "1.IH"[OF lt ne le "1.prems"(2,3) this] lt ne show ?thesis
      by (subst free_scan.simps) simp
  qed
qed

lemma first_occurrence:
  "p \<in> set (take n caps) \<Longrightarrow> n \<le> length caps \<Longrightarrow>
   \<exists>k<n. caps ! k = p \<and> (\<forall>j<k. caps ! j \<noteq> p)"
proof -
  assume mem: "p \<in> set (take n caps)" and len: "n \<le> length caps"
  define P where "P = (\<lambda>k. k < n \<and> caps ! k = p)"
  from mem len obtain k0 where "k0 < n" "caps ! k0 = p"
    by (auto simp: in_set_conv_nth)
  then have "\<exists>k. P k" by (auto simp: P_def)
  then obtain k where "P k" and "\<forall>j<k. \<not> P j"
    using exists_least_iff[of P] by blast
  then show ?thesis unfolding P_def by (metis less_trans)
qed


lemma free_scan_cases:
  "free_scan p i n caps = caps \<or> (\<exists>k. i \<le> k \<and> k < n \<and> free_scan p i n caps = caps[k := Null])"
proof (induction p i n caps rule: free_scan.induct)
  case (1 p i n caps)
  show ?case
  proof (cases "i < n")
    case False
    then show ?thesis by (subst free_scan.simps) simp
  next
    case True
    show ?thesis
    proof (cases "caps ! i = p")
      case hit: True
      with True have "free_scan p i n caps = caps[i := Null]"
        by (subst free_scan.simps) simp
      with True show ?thesis by blast
    next
      case miss: False
      with True have "free_scan p i n caps = free_scan p (Suc i) n caps"
        by (subst free_scan.simps) simp
      with "1.IH"[OF True miss] show ?thesis by (metis Suc_leD)
    qed
  qed
qed

text \<open>The table never holds more than 32 entries, whatever is requested.\<close>

lemma exec_op_num_caps: "num_caps s \<le> 32 \<Longrightarrow> num_caps (exec_op x s) \<le> 32"
  by (cases x) (auto simp: cheri_malloc_def cheri_free_def Let_def)

lemma run_ops_num_caps: "num_caps s \<le> 32 \<Longrightarrow> num_caps (run_ops ops s) \<le> 32"
  by (induction ops arbitrary: s) (auto intro: exec_op_num_caps)

lemma heap_inv_initial: "heap_inv initial_heap"
  by (simp add: heap_inv_def initial_heap_def)

lemma heap_inv_malloc:
  assumes inv: "heap_inv s" and m: "0 < m" "m < 2147482624"
  shows "heap_inv (snd (cheri_malloc m s))"
proof -
  from inv m have w: "wrap32 (next_alloc s + m) = next_alloc s + m"
    by (intro wrap32_id) (auto simp: heap_inv_def)
  show ?thesis
  proof (cases "next_alloc s + m \<ge> 1024")
    case True
    with inv show ?thesis by (simp add: cheri_malloc_def w)
  next
    case False
    show ?thesis
    proof (cases "num_caps s < 32")
      case full: False
      with False inv m show ?thesis
        by (fastforce simp: cheri_malloc_def w Let_def heap_inv_def)
    next
      case room: True
      have "\<forall>i<Suc (num_caps s).
              (allocated_caps s)[num_caps s := Elem (next_alloc s)] ! i = Null
              \<or> (\<exists>k. (allocated_caps s)[num_caps s := Elem (next_alloc s)] ! i = Elem k
                     \<and> k < next_alloc s + m)"
      proof (intro allI impI)
        fix i assume i: "i < Suc (num_caps s)"
        show "(allocated_caps s)[num_caps s := Elem (next_alloc s)] ! i = Null
              \<or> (\<exists>k. (allocated_caps s)[num_caps s := Elem (next_alloc s)] ! i = Elem k
                     \<and> k < next_alloc s + m)"
        proof (cases "i = num_caps s")
          case True
          with room inv m show ?thesis by (simp add: heap_inv_def)
        next
          case False
          with i have "i < num_caps s" by simp
          with inv False m show ?thesis by (fastforce simp: heap_inv_def)
        qed
      qed
      with False room inv m show ?thesis
        by (simp add: cheri_malloc_def w Let_def heap_inv_def cheri_bounds_set_def)
    qed
  qed
qed


lemma heap_inv_free: "heap_inv s \<Longrightarrow> heap_inv (cheri_free p s)"
proof -
  assume inv: "heap_inv s"
  let ?caps = "allocated_caps s"
  from free_scan_cases[of p 0 "num_caps s" ?caps]
  consider "free_scan p 0 (num_caps s) ?caps = ?caps"
    | k where "k < num_caps s" "free_scan p 0 (num_caps s) ?caps = ?caps[k := Null]"
    by blast
  then show ?thesis
  proof cases
    case 1
    with inv show ?thesis by (simp add: cheri_free_def heap_inv_def)
  next
    case 2
    have "\<forall>i<num_caps s. ?caps[k := Null] ! i = Null
            \<or> (\<exists>j. ?caps[k := Null] ! i = Elem j \<and> j < next_alloc s)"
    proof (intro allI impI)
      fix i assume i: "i < num_caps s"
      show "?caps[k := Null] ! i = Null
            \<or> (\<exists>j. ?caps[k := Null] ! i = Elem j \<and> j < next_alloc s)"
      proof (cases "i = k")
        case True
        with i inv show ?thesis by (simp add: heap_inv_def)
      next
        case False
        with i inv show ?thesis by (simp add: heap_inv_def)
      qed
    qed
    with 2 inv show ?thesis by (simp add: cheri_free_def heap_inv_def)
  qed
qed

lemma heap_inv_run:
  "heap_inv s \<Longrightarrow> sizes_in_range ops \<Longrightarrow> heap_inv (run_ops ops s)"
proof (induction ops arbitrary: s)
  case Nil
  then show ?case by simp
next
  case (Cons x xs)
  from Cons.prems(2) have rest: "sizes_in_range xs" by (simp add: sizes_in_range_def)
  have "heap_inv (exec_op x s)"
  proof (cases x)
    case (Malloc m)
    with Cons.prems show ?thesis by (simp add: sizes_in_range_def heap_inv_malloc)
  next
    case (Free q)
    with Cons.prems show ?thesis by (simp add: heap_inv_free)
  qed
  from Cons.IH[OF this rest] show ?case by simp
qed

lemma cheri_free_untracked: "untracked cap s \<Longrightarrow> cheri_free cap s = s"
  by (simp add: cheri_free_def untracked_def free_scan_absent)

lemma untracked_exec:
  assumes full: "num_caps s = 32" and len: "length (allocated_caps s) = 32"
    and un: "untracked cap s" and nn: "cap \<noteq> Null"
  shows "num_caps (exec_op x s) = 32 \<and> length (allocated_caps (exec_op x s)) = 32
         \<and> untracked cap (exec_op x s)"
proof (cases x)
  case (Malloc m)
  with assms show ?thesis by (simp add: cheri_malloc_def Let_def untracked_def)
next
  case (Free q)
  let ?caps = "allocated_caps s"
  from free_scan_cases[of q 0 "num_caps s" ?caps]
  consider "free_scan q 0 (num_caps s) ?caps = ?caps"
    | k where "k < num_caps s" "free_scan q 0 (num_caps s) ?caps = ?caps[k := Null]"
    by blast
  then show ?thesis
  proof cases
    case 1
    with Free assms show ?thesis by (simp add: cheri_free_def untracked_def)
  next
    case 2
    have "\<forall>i<num_caps s. ?caps[k := Null] ! i \<noteq> cap"
    proof (intro allI impI)
      fix i assume "i < num_caps s"
      with un nn full len show "?caps[k := Null] ! i \<noteq> cap"
        by (cases "i = k") (auto simp: untracked_def)
    qed
    with 2 Free assms show ?thesis by (simp add: cheri_free_def untracked_def)
  qed
qed

lemma untracked_run:
  "num_caps s = 32 \<Longrightarrow> length (allocated_caps s) = 32 \<Longrightarrow> untracked cap s \<Longrightarrow> cap \<noteq> Null \<Longrightarrow>
   untracked cap (run_ops ops s)"
proof (induction ops arbitrary: s)
  case Nil
  then show ?case by simp
next
  case (Cons x xs)
  from untracked_exec[OF Cons.prems, of x] Cons.IH[of "exec_op x s"] Cons.prems(4)
  show ?case by simp
qed

text \<open>
  C2, as amended. \<open>cheri_free\<close> of a non-null capability changes the table only: it clears
  the first tracked entry equal to the capability, and changes nothing when there is
  none. It returns no value, so a second call reports nothing: when the capability was
  tracked in one slot, the second call leaves the state as the first left it. The
  caller's copy is not touched, and \<open>cheri_tag_get\<close> answers 1 for it before and after.
\<close>

theorem cheri_free_effect:
  assumes nn: "p \<noteq> Null" and len: "num_caps s \<le> length (allocated_caps s)"
  shows "cheri_tag_get p = 1
     \<and> next_alloc (cheri_free p s) = next_alloc s \<and> num_caps (cheri_free p s) = num_caps s
     \<and> (p \<in> set (take (num_caps s) (allocated_caps s)) \<longrightarrow>
          (\<exists>k<num_caps s. allocated_caps s ! k = p \<and> (\<forall>j<k. allocated_caps s ! j \<noteq> p)
              \<and> allocated_caps (cheri_free p s) = (allocated_caps s)[k := Null]))
     \<and> (untracked p s \<longrightarrow> cheri_free p s = s)
     \<and> ((\<exists>k<num_caps s. allocated_caps s ! k = p
              \<and> (\<forall>j<num_caps s. j \<noteq> k \<longrightarrow> allocated_caps s ! j \<noteq> p))
          \<longrightarrow> cheri_free p (cheri_free p s) = cheri_free p s)"
proof (intro conjI impI)
  show "cheri_tag_get p = 1" by (simp add: cheri_tag_get_def)
  show "next_alloc (cheri_free p s) = next_alloc s" by (simp add: cheri_free_def)
  show "num_caps (cheri_free p s) = num_caps s" by (simp add: cheri_free_def)
next
  assume "p \<in> set (take (num_caps s) (allocated_caps s))"
  from first_occurrence[OF this len] obtain k where k: "k < num_caps s"
    "allocated_caps s ! k = p" "\<forall>j<k. allocated_caps s ! j \<noteq> p" by blast
  then have "free_scan p 0 (num_caps s) (allocated_caps s) = (allocated_caps s)[k := Null]"
    by (intro free_scan_first) auto
  with nn have "allocated_caps (cheri_free p s) = (allocated_caps s)[k := Null]"
    by (simp add: cheri_free_def)
  with k show "\<exists>k<num_caps s. allocated_caps s ! k = p \<and> (\<forall>j<k. allocated_caps s ! j \<noteq> p)
              \<and> allocated_caps (cheri_free p s) = (allocated_caps s)[k := Null]"
    by blast
next
  assume "untracked p s"
  then show "cheri_free p s = s" by (rule cheri_free_untracked)
next
  assume "\<exists>k<num_caps s. allocated_caps s ! k = p
              \<and> (\<forall>j<num_caps s. j \<noteq> k \<longrightarrow> allocated_caps s ! j \<noteq> p)"
  then obtain k where k: "k < num_caps s" "allocated_caps s ! k = p"
    and uniq: "\<forall>j<num_caps s. j \<noteq> k \<longrightarrow> allocated_caps s ! j \<noteq> p" by blast
  from k uniq have "free_scan p 0 (num_caps s) (allocated_caps s) = (allocated_caps s)[k := Null]"
    by (intro free_scan_first) auto
  with nn have eq: "cheri_free p s = s\<lparr>allocated_caps := (allocated_caps s)[k := Null]\<rparr>"
    by (simp add: cheri_free_def)
  have "\<forall>i<num_caps s. (allocated_caps s)[k := Null] ! i \<noteq> p"
  proof (intro allI impI)
    fix i assume i: "i < num_caps s"
    show "(allocated_caps s)[k := Null] ! i \<noteq> p"
    proof (cases "i = k")
      case True
      with k len nn show ?thesis by auto
    next
      case False
      with i uniq show ?thesis by simp
    qed
  qed
  then have "untracked p (cheri_free p s)" by (simp add: eq untracked_def)
  then show "cheri_free p (cheri_free p s) = cheri_free p s" by (rule cheri_free_untracked)
qed

text \<open>
  Two blocks of 32 and 16 bytes; the second, at index 32, is freed twice.
\<close>

theorem cheri_free_effect_witness:
  "cheri_tag_get (Elem 32) = 1
   \<and> num_caps (cheri_free (Elem 32) (run_ops [Malloc 32, Malloc 16] initial_heap)) = 2
   \<and> cheri_free (Elem 32) (cheri_free (Elem 32) (run_ops [Malloc 32, Malloc 16] initial_heap))
       = cheri_free (Elem 32) (run_ops [Malloc 32, Malloc 16] initial_heap)"
proof -
  let ?S = "run_ops [Malloc 32, Malloc 16] initial_heap"
  have caps: "allocated_caps ?S = Elem 0 # Elem 32 # replicate 30 Null"
    and num: "num_caps ?S = 2"
    by code_simp+
  have nn: "Elem 32 \<noteq> Null" by simp
  have len: "num_caps ?S \<le> length (allocated_caps ?S)"
    by (simp add: caps num del: run_ops.simps)
  have "1 < num_caps ?S \<and> allocated_caps ?S ! 1 = Elem 32
        \<and> (\<forall>j<num_caps ?S. j \<noteq> 1 \<longrightarrow> allocated_caps ?S ! j \<noteq> Elem 32)"
    by (simp add: caps num less_Suc_eq numeral_2_eq_2 del: run_ops.simps)
  then have once: "\<exists>k<num_caps ?S. allocated_caps ?S ! k = Elem 32
        \<and> (\<forall>j<num_caps ?S. j \<noteq> k \<longrightarrow> allocated_caps ?S ! j \<noteq> Elem 32)"
    by blast
  from cheri_free_effect[OF nn len] once num show ?thesis
    by (simp del: run_ops.simps)
qed

text \<open>
  C2, as stated, fails on the scenario of \<open>protected_double_free\<close>: after the first
  \<open>cheri_free\<close> of a fresh 50-byte block has cleared its table entry, \<open>cheri_tag_get\<close> still
  answers 1 for the capability, and the second \<open>cheri_free\<close> changes nothing and reports
  nothing.
\<close>

theorem cheri_free_second_call_silent:
  "fst (cheri_malloc 50 initial_heap) = Elem 0
   \<and> allocated_caps (snd (cheri_malloc 50 initial_heap)) ! 0 = Elem 0
   \<and> allocated_caps (cheri_free (Elem 0) (snd (cheri_malloc 50 initial_heap))) ! 0 = Null
   \<and> cheri_tag_get (fst (cheri_malloc 50 initial_heap)) = 1
   \<and> cheri_free (Elem 0) (cheri_free (Elem 0) (snd (cheri_malloc 50 initial_heap)))
       = cheri_free (Elem 0) (snd (cheri_malloc 50 initial_heap))"
  by code_simp

text \<open>
  C9, as amended. The table never holds more than 32 entries. Once it is full,
  \<open>cheri_malloc\<close> still decides by its capacity guard alone and, when the guard passes,
  returns the capability without registering it: the table and \<open>num_caps\<close> stay as they
  were. After a history in which every request was for at least one byte and for fewer
  than \<open>2^31 - 1024\<close> bytes (so that the \<open>int\<close> sum of the guard cannot overflow), no
  tracked entry equals that capability, and a \<open>cheri_free\<close> of it changes nothing, then
  and after any later calls.
\<close>

theorem cheri_malloc_table_full:
  "num_caps (run_ops ops initial_heap) \<le> 32
   \<and> (num_caps s = 32 \<and> wrap32 (next_alloc s + n) < 1024 \<longrightarrow>
        fst (cheri_malloc n s) = Elem (next_alloc s)
        \<and> allocated_caps (snd (cheri_malloc n s)) = allocated_caps s
        \<and> num_caps (snd (cheri_malloc n s)) = 32)
   \<and> ((\<forall>x\<in>set ops. case x of Malloc sz \<Rightarrow> 0 < sz \<and> sz < 2147482624 | Free q \<Rightarrow> True)
        \<and> s = run_ops ops initial_heap
        \<and> num_caps s = 32 \<and> wrap32 (next_alloc s + n) < 1024 \<longrightarrow>
        cheri_free (fst (cheri_malloc n s)) (run_ops later (snd (cheri_malloc n s)))
          = run_ops later (snd (cheri_malloc n s)))"
proof (intro conjI impI)
  show "num_caps (run_ops ops initial_heap) \<le> 32"
    by (rule run_ops_num_caps) (simp add: initial_heap_def)
next
  assume "num_caps s = 32 \<and> wrap32 (next_alloc s + n) < 1024"
  then show "fst (cheri_malloc n s) = Elem (next_alloc s)"
    and "allocated_caps (snd (cheri_malloc n s)) = allocated_caps s"
    and "num_caps (snd (cheri_malloc n s)) = 32"
    by (simp_all add: cheri_malloc_def Let_def cheri_bounds_set_def)
next
  assume a: "(\<forall>x\<in>set ops. case x of Malloc sz \<Rightarrow> 0 < sz \<and> sz < 2147482624 | Free q \<Rightarrow> True)
        \<and> s = run_ops ops initial_heap
        \<and> num_caps s = 32 \<and> wrap32 (next_alloc s + n) < 1024"
  then have pos: "sizes_in_range ops" and s: "s = run_ops ops initial_heap"
    and fl: "num_caps s = 32" and g: "wrap32 (next_alloc s + n) < 1024"
    unfolding sizes_in_range_def by blast+
  from pos s have inv: "heap_inv s" using heap_inv_run[OF heap_inv_initial] by simp
  let ?cap = "fst (cheri_malloc n s)" and ?s' = "snd (cheri_malloc n s)"
  from fl g have cap: "?cap = Elem (next_alloc s)"
    and caps: "allocated_caps ?s' = allocated_caps s" and full: "num_caps ?s' = 32"
    by (simp_all add: cheri_malloc_def Let_def cheri_bounds_set_def)
  from inv have "\<forall>i<num_caps s. allocated_caps s ! i \<noteq> Elem (next_alloc s)"
    by (fastforce simp: heap_inv_def)
  with fl cap caps full have un: "untracked ?cap ?s'" by (simp add: untracked_def)
  from inv caps have len: "length (allocated_caps ?s') = 32" by (simp add: heap_inv_def)
  from cap have "?cap \<noteq> Null" by simp
  from untracked_run[OF full len un this]
  show "cheri_free ?cap (run_ops later ?s') = run_ops later ?s'"
    by (rule cheri_free_untracked)
qed

text \<open>
  Thirty-two one-byte blocks fill the table; the 8-byte block that follows is at index 32.
\<close>

theorem cheri_malloc_table_full_witness:
  "num_caps (run_ops (replicate 32 (Malloc 1)) initial_heap) = 32
   \<and> fst (cheri_malloc 8 (run_ops (replicate 32 (Malloc 1)) initial_heap)) = Elem 32
   \<and> cheri_free (fst (cheri_malloc 8 (run_ops (replicate 32 (Malloc 1)) initial_heap)))
        (run_ops [Malloc 4, Free (Elem 3)]
           (snd (cheri_malloc 8 (run_ops (replicate 32 (Malloc 1)) initial_heap))))
      = run_ops [Malloc 4, Free (Elem 3)]
           (snd (cheri_malloc 8 (run_ops (replicate 32 (Malloc 1)) initial_heap)))"
proof -
  let ?S = "run_ops (replicate 32 (Malloc 1)) initial_heap"
  have full: "num_caps ?S = 32" and nxt: "next_alloc ?S = 32"
    by code_simp+
  have g: "wrap32 (next_alloc ?S + 8) < 1024" by (simp add: nxt wrap32_def)
  have pos: "\<forall>x\<in>set (replicate 32 (Malloc 1)).
               case x of Malloc sz \<Rightarrow> 0 < sz \<and> sz < 2147482624 | Free q \<Rightarrow> True"
    by simp
  note T = cheri_malloc_table_full[of "replicate 32 (Malloc 1)" ?S 8 "[Malloc 4, Free (Elem 3)]"]
  from T full g have "fst (cheri_malloc 8 ?S) = Elem (next_alloc ?S)" by blast
  then have c: "fst (cheri_malloc 8 ?S) = Elem 32" by (simp only: nxt)
  from T full g pos have
    "cheri_free (fst (cheri_malloc 8 ?S)) (run_ops [Malloc 4, Free (Elem 3)] (snd (cheri_malloc 8 ?S)))
      = run_ops [Malloc 4, Free (Elem 3)] (snd (cheri_malloc 8 ?S))"
    by blast
  with full c show ?thesis by blast
qed

text \<open>
  C9, as stated, fails for requests of no byte: thirty-two calls \<open>cheri_malloc(0)\<close> fill the
  table with the address of byte 0, the thirty-third returns the same address without
  registering it, and \<open>cheri_free\<close> of that capability clears the first entry of the table.
\<close>

theorem cheri_free_clears_aliased_entry:
  "num_caps (run_ops (replicate 32 (Malloc 0)) initial_heap) = 32
   \<and> fst (cheri_malloc 0 (run_ops (replicate 32 (Malloc 0)) initial_heap)) = Elem 0
   \<and> allocated_caps (snd (cheri_malloc 0 (run_ops (replicate 32 (Malloc 0)) initial_heap))) ! 0
       = Elem 0
   \<and> allocated_caps (cheri_free (Elem 0)
        (snd (cheri_malloc 0 (run_ops (replicate 32 (Malloc 0)) initial_heap)))) ! 0 = Null"
  by code_simp


section \<open>The string copies\<close>

text \<open>A string shorter than \<open>2^31\<close> characters is measured without the counter wrapping.\<close>

lemma strlen_loop_string:
  assumes s: "c_string m str k" and k: "k < 2147483648"
  shows "j \<le> k \<Longrightarrow> strlen_loop m str (int j) = Some (int k)"
proof (induction "k - j" arbitrary: j)
  case 0
  then have "j = k" by simp
  with s show ?case
    by (subst strlen_loop.simps) (simp add: c_string_def)
next
  case (Suc d)
  then have lt: "j < k" and d: "d = k - Suc j" and le: "Suc j \<le> k" by auto
  from s lt have ne: "m (str + of_nat j) \<noteq> CHR 0x00" by (simp add: c_string_def)
  from lt k have w: "wrap32 (int j + 1) = int (Suc j)" by (simp add: wrap32_id)
  from Suc.hyps(1)[OF d le] ne w show ?case
    by (subst strlen_loop.simps) simp
qed

lemma simple_strlen_string:
  "c_string m str k \<Longrightarrow> k < 2147483648 \<Longrightarrow> simple_strlen m str = Some (int k)"
  using strlen_loop_string[of m str k 0] by (simp add: simple_strlen_def)

text \<open>
  The copy of a string whose bytes lie apart from the bytes written: it returns, the
  characters and the terminator stand from \<open>dest\<close>, and no other byte has changed.
\<close>

lemma of_nat_word_neq_0: "0 < n \<Longrightarrow> n < 18446744073709551616 \<Longrightarrow> (of_nat n :: 64 word) \<noteq> 0"
  using of_nat_neq_0[where ?'a = 64, of n] by simp

lemma copy_loop_string:
  "c_string m src k \<Longrightarrow> apart dest src k \<Longrightarrow> k < 18446744073709551615 \<Longrightarrow>
   \<exists>m'. copy_loop m dest src = Some m'
        \<and> (\<forall>i<k. m' (dest + of_nat i) = m (src + of_nat i))
        \<and> m' (dest + of_nat k) = CHR 0x00
        \<and> (\<forall>a. (\<forall>i\<le>k. a \<noteq> dest + of_nat i) \<longrightarrow> m' a = m a)"
proof (induction k arbitrary: m dest src)
  case 0
  then have "m src = CHR 0x00" by (simp add: c_string_def)
  then have "copy_loop m dest src = Some (m(dest := CHR 0x00))"
    by (subst copy_loop.simps) simp
  then show ?case by simp
next
  case (Suc k)
  let ?m1 = "m(dest := m src)"
  from Suc.prems(1) have ne: "m src \<noteq> CHR 0x00"
    using c_string_def[of m src "Suc k"] by force
  then have unf: "copy_loop m dest src = copy_loop ?m1 (dest + 1) (src + 1)"
    by (subst copy_loop.simps) simp
  have shift: "\<And>a i. a + 1 + of_nat i = a + (of_nat (Suc i) :: 64 word)" by simp
  have dest_ne: "\<And>j. j \<le> Suc k \<Longrightarrow> dest \<noteq> src + of_nat j"
  proof -
    fix j assume "j \<le> Suc k"
    with Suc.prems(2) have "dest + of_nat 0 \<noteq> src + of_nat j"
      unfolding apart_def by blast
    then show "dest \<noteq> src + of_nat j" by simp
  qed
  have m1_src: "\<And>j. j \<le> Suc k \<Longrightarrow> ?m1 (src + of_nat j) = m (src + of_nat j)"
    using dest_ne by (metis fun_upd_other)
  have cs: "c_string ?m1 (src + 1) k"
    unfolding c_string_def
  proof (intro conjI allI impI)
    fix i assume "i < k"
    then have "?m1 (src + of_nat (Suc i)) = m (src + of_nat (Suc i))" by (intro m1_src) simp
    moreover from Suc.prems(1) \<open>i < k\<close> have "m (src + of_nat (Suc i)) \<noteq> CHR 0x00"
      unfolding c_string_def by (metis Suc_less_eq)
    ultimately show "?m1 (src + 1 + of_nat i) \<noteq> CHR 0x00" by (simp only: shift simp_thms)
  next
    have "?m1 (src + of_nat (Suc k)) = m (src + of_nat (Suc k))" by (intro m1_src) simp
    with Suc.prems(1) show "?m1 (src + 1 + of_nat k) = CHR 0x00"
      by (simp only: shift c_string_def simp_thms)
  qed
  have ap: "apart (dest + 1) (src + 1) k"
    unfolding apart_def
  proof (intro allI impI)
    fix i j assume "i \<le> k" "j \<le> k"
    with Suc.prems(2) have "dest + of_nat (Suc i) \<noteq> src + of_nat (Suc j)"
      unfolding apart_def by (metis Suc_le_mono)
    then show "dest + 1 + of_nat i \<noteq> src + 1 + of_nat j" by (simp only: shift simp_thms)
  qed
  from Suc.prems(3) have kb: "k < 18446744073709551615" by simp
  from Suc.IH[OF cs ap kb] obtain m' where
    run: "copy_loop ?m1 (dest + 1) (src + 1) = Some m'"
    and wr: "\<forall>i<k. m' (dest + 1 + of_nat i) = ?m1 (src + 1 + of_nat i)"
    and nul: "m' (dest + 1 + of_nat k) = CHR 0x00"
    and fr: "\<forall>a. (\<forall>i\<le>k. a \<noteq> dest + 1 + of_nat i) \<longrightarrow> m' a = ?m1 a"
    by blast
  have first: "\<forall>i\<le>k. dest \<noteq> dest + 1 + of_nat i"
  proof (intro allI impI)
    fix i assume "i \<le> k"
    with Suc.prems(3) have "(of_nat (Suc i) :: 64 word) \<noteq> 0"
      by (intro of_nat_word_neq_0) auto
    then show "dest \<noteq> dest + 1 + of_nat i" by (simp only: shift simp_thms) simp
  qed
  with fr have at_dest: "m' dest = m src" by simp
  have written: "\<forall>i<Suc k. m' (dest + of_nat i) = m (src + of_nat i)"
  proof (intro allI impI)
    fix i assume i: "i < Suc k"
    show "m' (dest + of_nat i) = m (src + of_nat i)"
    proof (cases i)
      case 0
      with at_dest show ?thesis by simp
    next
      case (Suc i')
      with i have "i' < k" by simp
      with wr have "m' (dest + 1 + of_nat i') = ?m1 (src + 1 + of_nat i')" by blast
      then have "m' (dest + of_nat (Suc i')) = ?m1 (src + of_nat (Suc i'))" by (simp only: shift simp_thms)
      moreover from i Suc have "?m1 (src + of_nat (Suc i')) = m (src + of_nat (Suc i'))"
        by (intro m1_src) simp
      ultimately show ?thesis using Suc by simp
    qed
  qed
  from nul have nul': "m' (dest + of_nat (Suc k)) = CHR 0x00" by (simp only: shift simp_thms)
  have frame: "\<forall>a. (\<forall>i\<le>Suc k. a \<noteq> dest + of_nat i) \<longrightarrow> m' a = m a"
  proof (intro allI impI)
    fix a assume a: "\<forall>i\<le>Suc k. a \<noteq> dest + of_nat i"
    then have "a \<noteq> dest + of_nat 0" by blast
    then have ad: "a \<noteq> dest" by simp
    have "\<forall>i\<le>k. a \<noteq> dest + 1 + of_nat i"
    proof (intro allI impI)
      fix i assume "i \<le> k"
      with a have "a \<noteq> dest + of_nat (Suc i)" by (metis Suc_le_mono)
      then show "a \<noteq> dest + 1 + of_nat i" by (simp only: shift simp_thms)
    qed
    with fr have "m' a = ?m1 a" by blast
    with ad show "m' a = m a" by simp
  qed
  from unf run written nul' frame show ?case by simp
qed


text \<open>
  What a returned length says: the loop stopped at a NUL, the counter stayed in the range
  of an \<open>int\<close>, and a length that is not negative is the length of the string at \<open>str\<close>.
\<close>

lemma strlen_loop_stops_at_nul:
  assumes "strlen_loop m str len = Some r"
  shows "m (str + of_int r) = CHR 0x00"
  by (rule strlen_loop.raw_induct
        [where P = "\<lambda>m str len r. m (str + of_int r) = CHR 0x00", OF _ assms])
     (simp split: if_splits)

lemma strlen_loop_range:
  assumes "strlen_loop m str len = Some r"
  shows "- 2147483648 \<le> len \<and> len < 2147483648 \<longrightarrow> - 2147483648 \<le> r \<and> r < 2147483648"
  by (rule strlen_loop.raw_induct
        [where P = "\<lambda>m str len r. - 2147483648 \<le> len \<and> len < 2147483648
                       \<longrightarrow> - 2147483648 \<le> r \<and> r < 2147483648", OF _ assms])
     (simp add: wrap32_def split: if_splits)

lemma simple_strlen_result:
  assumes r: "simple_strlen m str = Some n" and n: "0 \<le> n" "n < 2147483648"
  shows "c_string m str (nat n)"
proof -
  from r have "m (str + of_int n) = CHR 0x00"
    unfolding simple_strlen_def by (rule strlen_loop_stops_at_nul)
  with n have at: "m (str + of_nat (nat n)) = CHR 0x00" by simp
  define P where "P = (\<lambda>i. m (str + of_nat i) = CHR 0x00)"
  from at have "P (nat n)" by (simp add: P_def)
  then have "\<exists>i. P i" by blast
  then obtain k where k: "P k" and least: "\<forall>j<k. \<not> P j"
    using exists_least_iff[of P] by blast
  from least \<open>P (nat n)\<close> have le: "k \<le> nat n" by (meson not_le)
  from k least have cs: "c_string m str k" by (simp add: c_string_def P_def)
  from le n have "k < 2147483648" by simp
  from simple_strlen_string[OF cs this] r have "int k = n" by simp
  with cs show ?thesis by auto
qed

text \<open>Bounded quantifiers over the first numbers, as a check of a list.\<close>

lemma all_less_list: "(\<forall>i<k. P i) \<longleftrightarrow> list_all P [0..<k]"
  by (auto simp: list_all_iff)

lemma all_le_list: "(\<forall>i\<le>k. P i) \<longleftrightarrow> list_all P [0..<Suc k]"
  by (auto simp: list_all_iff less_Suc_eq_le)

text \<open>
  C5, as amended. Built with \<open>__CHERI__\<close>, \<open>cheri_strcpy\<close> decides before it writes.
  Whenever the measured length, read as \<open>unsigned long\<close>, is 8 or more (a string of 8 or
  more characters, 9 or more bytes with its terminator), the call is refused and memory
  is left as it was; otherwise the length is that of the string at \<open>src\<close> and the
  unchecked loop runs. For a string of fewer than 8 characters whose bytes lie apart
  from the bytes written, the call returns with the characters and the terminator
  copied in full inside the 8 bytes from \<open>dest\<close> and every other byte as it was. The
  function returns no fault value in any case. Built without \<open>__CHERI__\<close> it measures the
  string and runs the unchecked loop of \<open>simple_strcpy\<close>.
\<close>

theorem cheri_strcpy_all_or_nothing:
  "(simple_strlen m src = Some n \<longrightarrow>
       (n < 0 \<or> 8 \<le> n) \<and> cheri_strcpy True m dest src = Some m
       \<or> (0 \<le> n \<and> n < 8) \<and> c_string m src (nat n)
           \<and> cheri_strcpy True m dest src = simple_strcpy m dest src)
   \<and> (c_string m src k \<and> 8 \<le> k \<and> k < 2147483648 \<longrightarrow> cheri_strcpy True m dest src = Some m)
   \<and> (c_string m src k \<and> k < 8 \<and> apart dest src k \<longrightarrow>
        (\<exists>m'. cheri_strcpy True m dest src = Some m'
           \<and> (\<forall>i<k. m' (dest + of_nat i) = m (src + of_nat i))
           \<and> m' (dest + of_nat k) = CHR 0x00
           \<and> (\<forall>a. (\<forall>i<8. a \<noteq> dest + of_nat i) \<longrightarrow> m' a = m a)))
   \<and> cheri_strcpy False m dest src
        = (case simple_strlen m src of None \<Rightarrow> None | Some n \<Rightarrow> simple_strcpy m dest src)"
proof (intro conjI impI)
  assume r: "simple_strlen m src = Some n"
  show "(n < 0 \<or> 8 \<le> n) \<and> cheri_strcpy True m dest src = Some m
       \<or> (0 \<le> n \<and> n < 8) \<and> c_string m src (nat n)
           \<and> cheri_strcpy True m dest src = simple_strcpy m dest src"
  proof (cases "0 \<le> n \<and> n < 8")
    case True
    then have "n mod 18446744073709551616 = n" by simp
    with True have "nat (n mod 18446744073709551616) < 8" by auto
    with r have "cheri_strcpy True m dest src = simple_strcpy m dest src"
      by (simp add: cheri_strcpy_def cheri_length_get_def simple_strcpy_def)
    moreover from True have "c_string m src (nat n)"
      by (intro simple_strlen_result[OF r]) auto
    ultimately show ?thesis using True by blast
  next
    case False
    then have out: "n < 0 \<or> 8 \<le> n" by auto
    from r have rng: "- 2147483648 \<le> n \<and> n < 2147483648"
      using strlen_loop_range[of m src 0 n] by (simp add: simple_strlen_def)
    have "n mod 18446744073709551616 \<ge> 8"
    proof (cases "n < 0")
      case True
      with rng have "n mod 18446744073709551616 = n + 18446744073709551616"
        by (intro mod_pos_pos_trivial[of "n + 18446744073709551616" 18446744073709551616,
              simplified mod_add_self2]) auto
      with rng show ?thesis by simp
    next
      case False
      with out rng have "n mod 18446744073709551616 = n" by simp
      with out False show ?thesis by simp
    qed
    then have "nat (n mod 18446744073709551616) \<ge> 8" by simp
    with r have "cheri_strcpy True m dest src = Some m"
      by (simp add: cheri_strcpy_def cheri_length_get_def)
    with out show ?thesis by blast
  qed
next
  assume a: "c_string m src k \<and> 8 \<le> k \<and> k < 2147483648"
  then have "simple_strlen m src = Some (int k)" by (intro simple_strlen_string) auto
  moreover from a have "nat (int k mod 18446744073709551616) \<ge> 8" by simp
  ultimately show "cheri_strcpy True m dest src = Some m"
    by (simp add: cheri_strcpy_def cheri_length_get_def)
next
  assume a: "c_string m src k \<and> k < 8 \<and> apart dest src k"
  then have cs: "c_string m src k" and k: "k < 8" and ap: "apart dest src k" by blast+
  from cs k have "simple_strlen m src = Some (int k)" by (intro simple_strlen_string) auto
  moreover from k have "nat (int k mod 18446744073709551616) < 8" by simp
  ultimately have eq: "cheri_strcpy True m dest src = copy_loop m dest src"
    by (simp add: cheri_strcpy_def cheri_length_get_def)
  from k have "k < 18446744073709551615" by simp
  from copy_loop_string[OF cs ap this] obtain m' where
    run: "copy_loop m dest src = Some m'"
    and wr: "\<forall>i<k. m' (dest + of_nat i) = m (src + of_nat i)"
    and nul: "m' (dest + of_nat k) = CHR 0x00"
    and fr: "\<forall>a. (\<forall>i\<le>k. a \<noteq> dest + of_nat i) \<longrightarrow> m' a = m a"
    by blast
  from fr k have "\<forall>a. (\<forall>i<8. a \<noteq> dest + of_nat i) \<longrightarrow> m' a = m a"
    by (metis le_less_trans)
  with eq run wr nul
  show "\<exists>m'. cheri_strcpy True m dest src = Some m'
           \<and> (\<forall>i<k. m' (dest + of_nat i) = m (src + of_nat i))
           \<and> m' (dest + of_nat k) = CHR 0x00
           \<and> (\<forall>a. (\<forall>i<8. a \<noteq> dest + of_nat i) \<longrightarrow> m' a = m a)"
    by simp
next
  show "cheri_strcpy False m dest src
        = (case simple_strlen m src of None \<Rightarrow> None | Some n \<Rightarrow> simple_strcpy m dest src)"
    by (simp add: cheri_strcpy_def simple_strcpy_def split: option.splits)
qed


text \<open>
  The two inputs of the off-by-one test, stored at address 100 of a memory filled with
  \<open>#\<close>, and copied to address 0: the 8 characters of \<open>12345678\<close> are refused, the 7
  characters of \<open>1234567\<close> fill bytes 0 to 7 and leave byte 8 alone.
\<close>

theorem cheri_strcpy_all_or_nothing_witness:
  "simple_strlen (place (\<lambda>a. CHR ''#'') 100 ''12345678'') 100 = Some 8
   \<and> cheri_strcpy True (place (\<lambda>a. CHR ''#'') 100 ''12345678'') 0 100
       = Some (place (\<lambda>a. CHR ''#'') 100 ''12345678'')
   \<and> (\<exists>m'. cheri_strcpy True (place (\<lambda>a. CHR ''#'') 100 ''1234567'') 0 100 = Some m'
          \<and> m' 0 = CHR ''1'' \<and> m' 6 = CHR ''7'' \<and> m' 7 = CHR 0x00 \<and> m' 8 = CHR ''#'')"
proof -
  let ?L = "place (\<lambda>a. CHR ''#'') 100 ''12345678''"
  let ?S = "place (\<lambda>a. CHR ''#'') 100 ''1234567''"
  have cl: "c_string ?L 100 8"
    by (simp only: c_string_def all_less_list, code_simp)
  have cs: "c_string ?S 100 7"
    by (simp only: c_string_def all_less_list, code_simp)
  have ap: "apart 0 100 7"
    by (simp only: apart_def all_le_list, code_simp)
  have l8: "simple_strlen ?L 100 = Some 8"
    using simple_strlen_string[OF cl] by simp
  from cheri_strcpy_all_or_nothing[of ?L 100 8 0 8] cl
  have long: "cheri_strcpy True ?L 0 100 = Some ?L" by simp
  from cheri_strcpy_all_or_nothing[of ?S 100 7 0 7] cs ap
  obtain m' where run: "cheri_strcpy True ?S 0 100 = Some m'"
    and wr: "\<forall>i<7. m' (0 + of_nat i) = ?S (100 + of_nat i)"
    and nul: "m' (0 + of_nat 7) = CHR 0x00"
    and fr: "\<forall>a. (\<forall>i<8. a \<noteq> 0 + of_nat i) \<longrightarrow> m' a = ?S a"
    by auto
  from wr have b0: "m' 0 = CHR ''1''" by (elim allE[of _ 0]) simp
  from wr have b6: "m' 6 = CHR ''7''" by (elim allE[of _ 6]) simp
  from nul have b7: "m' 7 = CHR 0x00" by simp
  have "\<forall>i<8. (8 :: 64 word) \<noteq> 0 + of_nat i"
    by (simp only: all_less_list, code_simp)
  with fr have "m' 8 = ?S 8" by blast
  then have b8: "m' 8 = CHR ''#''" by simp
  from l8 long run b0 b6 b7 b8 show ?thesis by blast
qed

text \<open>
  C5, as stated, fails on \<open>simple_strcpy\<close> and on \<open>cheri_strcpy\<close> built without
  \<open>__CHERI__\<close>: the 8 characters of \<open>12345678\<close> and the terminator are written through
  the 8-byte destination at bytes 0 to 7 without any fault, and the terminator lands on
  byte 8, next to the buffer, which held \<open>#\<close> before.
\<close>

theorem simple_strcpy_writes_ninth_byte:
  "\<exists>m'. simple_strcpy (place (\<lambda>a. CHR ''#'') 100 ''12345678'') 0 100 = Some m'
      \<and> cheri_strcpy False (place (\<lambda>a. CHR ''#'') 100 ''12345678'') 0 100 = Some m'
      \<and> m' 0 = CHR ''1'' \<and> m' 7 = CHR ''8'' \<and> m' 8 = CHR 0x00
      \<and> place (\<lambda>a. CHR ''#'') 100 ''12345678'' 8 = CHR ''#''"
proof -
  let ?L = "place (\<lambda>a. CHR ''#'') 100 ''12345678''"
  have cl: "c_string ?L 100 8"
    by (simp only: c_string_def all_less_list, code_simp)
  have ap: "apart 0 100 8"
    by (simp only: apart_def all_le_list, code_simp)
  have l8: "simple_strlen ?L 100 = Some 8"
    using simple_strlen_string[OF cl] by simp
  from copy_loop_string[OF cl ap] obtain m' where run: "copy_loop ?L 0 100 = Some m'"
    and wr: "\<forall>i<8. m' (0 + of_nat i) = ?L (100 + of_nat i)"
    and nul: "m' (0 + of_nat 8) = CHR 0x00"
    by auto
  from wr have b0: "m' 0 = CHR ''1''" by (elim allE[of _ 0]) simp
  from wr have b7: "m' 7 = CHR ''8''" by (elim allE[of _ 7]) simp
  from nul have b8: "m' 8 = CHR 0x00" by simp
  from run have s: "simple_strcpy ?L 0 100 = Some m'" by (simp add: simple_strcpy_def)
  from run l8 have c: "cheri_strcpy False ?L 0 100 = Some m'" by (simp add: cheri_strcpy_def)
  have u: "?L 8 = CHR ''#''" by simp
  from s c b0 b7 b8 u show ?thesis by blast
qed

text \<open>
  Where source and destination overlap nothing of the kind holds. A copy onto the
  address right after the start of a non-empty string reads back the characters it has
  just written and never meets the terminator: it overwrites it, runs past the 8 bytes
  from \<open>dest\<close> and, every address of this memory being readable and writable, never
  returns. The check of \<open>cheri_strcpy\<close> does not prevent it: the string \<open>abc\<close> at address 0
  has length 3.
\<close>

lemma copy_loop_returns_not_onto_next:
  assumes "copy_loop m dest src = Some y"
  shows "\<not> (dest = src + 1 \<and> m src \<noteq> CHR 0x00)"
  by (rule copy_loop.raw_induct
        [where P = "\<lambda>m dest src y. \<not> (dest = src + 1 \<and> m src \<noteq> CHR 0x00)", OF _ assms])
     (auto split: if_splits)

lemma copy_onto_next_never_returns:
  "m src \<noteq> CHR 0x00 \<Longrightarrow> copy_loop m (src + 1) src = None"
  using copy_loop_returns_not_onto_next[of m "src + 1" src] by (cases "copy_loop m (src + 1) src") auto

lemma cheri_strcpy_overlap_never_returns:
  "simple_strlen (place (\<lambda>a. CHR ''#'') 0 ''abc'') 0 = Some 3
   \<and> cheri_strcpy True (place (\<lambda>a. CHR ''#'') 0 ''abc'') 1 0 = None"
proof -
  let ?M = "place (\<lambda>a. CHR ''#'') 0 ''abc''"
  have cs: "c_string ?M 0 3" by (simp only: c_string_def all_less_list, code_simp)
  have l: "simple_strlen ?M 0 = Some 3" using simple_strlen_string[OF cs] by simp
  have "?M 0 \<noteq> CHR 0x00" by simp
  with copy_onto_next_never_returns[of ?M 0] have "copy_loop ?M 1 0 = None" by simp
  with l show ?thesis by (simp add: cheri_strcpy_def cheri_length_get_def)
qed

section \<open>The wrapped end address\<close>

text \<open>
  The sum of test_bounds_calculation_overflow wraps in the 64 bits of \<open>uintptr_t\<close>: its
  \<open>end_calc\<close> is 999, below \<open>base\<close>, as the test reports.
\<close>

lemma end_calc_wraps:
  "end_calc 0x80000000 (- 1 - 0x80000000 + 1000) = 999
   \<and> end_calc 0x80000000 (- 1 - 0x80000000 + 1000) < 0x80000000"
  by (simp add: end_calc_def)

section \<open>The memory model of the specification\<close>

subsection \<open>Cursor arithmetic and the dereference check\<close>




subsection \<open>The zero-length capability\<close>

text \<open>
  C6. \<open>allocate(0)\<close> succeeds on every state of the model and returns a tagged, valid
  capability of length 0. A read of 0 bytes through it returns the empty sequence; a
  read of one or more bytes, and a write of one or more bytes, return BoundsViolation.
\<close>

theorem zero_length_capability:
  "\<exists>cap m'. allocate 0 m = Inr (cap, m')
     \<and> tag cap \<and> cap_length cap = 0 \<and> is_valid cap m'
     \<and> read cap 0 m' = Inr []
     \<and> (\<forall>n>0. read cap n m' = Inl BoundsViolation)
     \<and> (\<forall>data. data \<noteq> [] \<longrightarrow> write_cap cap data m' = Inl BoundsViolation)"
proof -
  let ?cap = "\<lparr>tag = True, base = 0, cap_length = 0, offset = 0,
               permissions = {PermRead, PermWrite, PermExecute}, alloc_id = length (table m)\<rparr>"
  let ?m' = "m\<lparr>bump := bump m + 0,
               table := table m @ [\<lparr>alloc_base = bump m, alloc_length = 0, live = True\<rparr>]\<rparr>"
  have al: "allocate 0 m = Inr (?cap, ?m')" by (simp add: allocate_def)
  have v: "is_valid ?cap ?m'" by (simp add: is_valid_def is_live_def)
  have r0: "read ?cap 0 ?m' = Inr []" using v by (simp add: read_def out_of_bounds_def)
  have rn: "\<forall>n>0. read ?cap n ?m' = Inl BoundsViolation"
    using v by (simp add: read_def out_of_bounds_def)
  have wn: "\<forall>data. data \<noteq> [] \<longrightarrow> write_cap ?cap data ?m' = Inl BoundsViolation"
    using v by (simp add: write_cap_def out_of_bounds_def)
  from al v r0 rn wn show ?thesis by (intro exI[of _ ?cap] exI[of _ ?m']) simp
qed

text \<open>A zero-length allocation on an arena whose 8 bytes are all taken.\<close>

theorem zero_length_capability_witness:
  "(case allocate 8 (new_arena 8) of
      Inl f \<Rightarrow> False
    | Inr (c8, m8) \<Rightarrow>
        remaining m8 = 0
        \<and> (case allocate 0 m8 of
              Inl f \<Rightarrow> False
            | Inr (cap, m') \<Rightarrow>
                cap_length cap = 0 \<and> read cap 0 m' = Inr []
                \<and> read cap 1 m' = Inl BoundsViolation
                \<and> write_cap cap [0x41] m' = Inl BoundsViolation))"
proof -
  let ?c8 = "\<lparr>tag = True, base = 0, cap_length = 8, offset = 0,
              permissions = {PermRead, PermWrite, PermExecute}, alloc_id = 0\<rparr>"
  let ?m8 = "(new_arena 8)\<lparr>bump := 8,
               table := [\<lparr>alloc_base = 0, alloc_length = 8, live = True\<rparr>]\<rparr>"
  have a8: "allocate 8 (new_arena 8) = Inr (?c8, ?m8)"
    by (simp add: allocate_def remaining_def new_arena_def)
  have rem: "remaining ?m8 = 0" by (simp add: remaining_def new_arena_def)
  from zero_length_capability[of ?m8] obtain cap m' where
    al: "allocate 0 ?m8 = Inr (cap, m')" and l: "cap_length cap = 0"
    and r0: "read cap 0 m' = Inr []"
    and rn: "\<forall>n>0. read cap n m' = Inl BoundsViolation"
    and wn: "\<forall>data. data \<noteq> [] \<longrightarrow> write_cap cap data m' = Inl BoundsViolation"
    by blast
  from rn have r1: "read cap 1 m' = Inl BoundsViolation" by simp
  from wn have w1: "write_cap cap [0x41] m' = Inl BoundsViolation" by simp
  from rem l r0 r1 w1 show ?thesis by (simp only: a8 al sum.case prod.case simp_thms)
qed

subsection \<open>Bounds of a dereference\<close>

lemma store_length: "length (store bytes start data) = length bytes"
  by (simp add: store_def)

lemma store_nth:
  "a < length bytes \<Longrightarrow>
   store bytes start data ! a
     = (if start \<le> a \<and> a < start + length data then data ! (a - start) else bytes ! a)"
  by (simp add: store_def)

text \<open>
  C3. For a valid capability whose bounds lie in the Arena, and every base, length,
  offset and access length, however large: a read either returns BoundsViolation, and
  then the offset is negative or offset plus length exceeds the capability's length, or
  it returns exactly the \<open>len\<close> bytes from the cursor's address, which lie inside the
  capability's bounds. A write through a capability with the write permission either
  returns BoundsViolation or stores exactly the data at those addresses and leaves every
  other byte of the Arena as it was. The sums are formed on unbounded integers and
  cannot wrap.
\<close>

theorem access_in_bounds:
  assumes v: "is_valid cap m" and wa: "within_arena cap m"
  shows "((offset cap < 0 \<or> offset cap + int len > int (cap_length cap))
            \<and> read cap len m = Inl BoundsViolation
          \<or> (0 \<le> offset cap \<and> offset cap + int len \<le> int (cap_length cap))
            \<and> base_abs cap m \<le> access_start cap m
            \<and> access_start cap m + len \<le> base_abs cap m + cap_length cap
            \<and> (\<exists>bs. read cap len m = Inr bs \<and> length bs = len
                  \<and> (\<forall>i<len. bs ! i = arena_bytes m ! (access_start cap m + i))))
       \<and> (PermWrite \<in> permissions cap \<longrightarrow>
            (offset cap < 0 \<or> offset cap + int (length data) > int (cap_length cap))
              \<and> write_cap cap data m = Inl BoundsViolation
            \<or> (0 \<le> offset cap \<and> offset cap + int (length data) \<le> int (cap_length cap))
              \<and> access_start cap m + length data \<le> base_abs cap m + cap_length cap
              \<and> (\<exists>m'. write_cap cap data m = Inr m'
                    \<and> length (arena_bytes m') = length (arena_bytes m)
                    \<and> (\<forall>i<length data. arena_bytes m' ! (access_start cap m + i) = data ! i)
                    \<and> (\<forall>a<length (arena_bytes m).
                          a < access_start cap m \<or> access_start cap m + length data \<le> a
                          \<longrightarrow> arena_bytes m' ! a = arena_bytes m ! a)))"
proof (intro conjI impI)
  show "(offset cap < 0 \<or> offset cap + int len > int (cap_length cap))
            \<and> read cap len m = Inl BoundsViolation
          \<or> (0 \<le> offset cap \<and> offset cap + int len \<le> int (cap_length cap))
            \<and> base_abs cap m \<le> access_start cap m
            \<and> access_start cap m + len \<le> base_abs cap m + cap_length cap
            \<and> (\<exists>bs. read cap len m = Inr bs \<and> length bs = len
                  \<and> (\<forall>i<len. bs ! i = arena_bytes m ! (access_start cap m + i)))"
  proof (cases "out_of_bounds cap len")
    case True
    with v show ?thesis by (simp add: read_def out_of_bounds_def)
  next
    case False
    then have ok: "0 \<le> offset cap" "offset cap + int len \<le> int (cap_length cap)"
      by (auto simp: out_of_bounds_def)
    then have inside: "access_start cap m + len \<le> base_abs cap m + cap_length cap"
      by (simp add: access_start_def)
    with wa have fit: "access_start cap m + len \<le> length (arena_bytes m)"
      by (simp add: within_arena_def)
    from v False have r: "read cap len m = Inr (take len (drop (access_start cap m) (arena_bytes m)))"
      by (simp add: read_def)
    from fit have "length (take len (drop (access_start cap m) (arena_bytes m))) = len"
      by simp
    moreover from fit have
      "\<forall>i<len. take len (drop (access_start cap m) (arena_bytes m)) ! i
                = arena_bytes m ! (access_start cap m + i)"
      by simp
    ultimately show ?thesis using ok inside r by (simp add: access_start_def)
  qed
next
  assume pw: "PermWrite \<in> permissions cap"
  show "(offset cap < 0 \<or> offset cap + int (length data) > int (cap_length cap))
              \<and> write_cap cap data m = Inl BoundsViolation
            \<or> (0 \<le> offset cap \<and> offset cap + int (length data) \<le> int (cap_length cap))
              \<and> access_start cap m + length data \<le> base_abs cap m + cap_length cap
              \<and> (\<exists>m'. write_cap cap data m = Inr m'
                    \<and> length (arena_bytes m') = length (arena_bytes m)
                    \<and> (\<forall>i<length data. arena_bytes m' ! (access_start cap m + i) = data ! i)
                    \<and> (\<forall>a<length (arena_bytes m).
                          a < access_start cap m \<or> access_start cap m + length data \<le> a
                          \<longrightarrow> arena_bytes m' ! a = arena_bytes m ! a))"
  proof (cases "out_of_bounds cap (length data)")
    case True
    with v show ?thesis by (simp add: write_cap_def out_of_bounds_def)
  next
    case False
    then have ok: "0 \<le> offset cap" "offset cap + int (length data) \<le> int (cap_length cap)"
      by (auto simp: out_of_bounds_def)
    then have inside: "access_start cap m + length data \<le> base_abs cap m + cap_length cap"
      by (simp add: access_start_def)
    with wa have fit: "access_start cap m + length data \<le> length (arena_bytes m)"
      by (simp add: within_arena_def)
    let ?m' = "m\<lparr>arena_bytes := store (arena_bytes m) (access_start cap m) data\<rparr>"
    from v False pw have w: "write_cap cap data m = Inr ?m'"
      by (simp add: write_cap_def)
    have len': "length (arena_bytes ?m') = length (arena_bytes m)"
      by (simp add: store_length)
    from fit have written: "\<forall>i<length data. arena_bytes ?m' ! (access_start cap m + i) = data ! i"
      by (simp add: store_nth)
    have frame: "\<forall>a<length (arena_bytes m).
                          a < access_start cap m \<or> access_start cap m + length data \<le> a
                          \<longrightarrow> arena_bytes ?m' ! a = arena_bytes m ! a"
      by (auto simp: store_nth)
    from ok inside w len' written frame show ?thesis by blast
  qed
qed

text \<open>
  A 16-byte capability with its cursor at offset 9. A read of \<open>2^64 - 8\<close> bytes, whose
  64-bit sum with 9 would wrap to 1, is a BoundsViolation; a read of one byte returns the
  byte at address 9; a write of 8 bytes is a BoundsViolation and one of 7 bytes succeeds.
\<close>

theorem access_in_bounds_witness:
  "(case allocate 16 (new_arena 32) of
      Inl f \<Rightarrow> False
    | Inr (cap, m) \<Rightarrow>
        is_valid (offset_by cap 9) m \<and> within_arena (offset_by cap 9) m
        \<and> read (offset_by cap 9) 18446744073709551608 m = Inl BoundsViolation
        \<and> read (offset_by cap 9) 1 m = Inr [arena_bytes m ! 9]
        \<and> write_cap (offset_by cap 9) [1, 2, 3, 4, 5, 6, 7, 8] m = Inl BoundsViolation
        \<and> (\<exists>m'. write_cap (offset_by cap 9) [1, 2, 3, 4, 5, 6, 7] m = Inr m'
                \<and> arena_bytes m' ! (9 + 6) = 7 \<and> arena_bytes m' ! 16 = arena_bytes m ! 16))"
proof -
  let ?cap = "\<lparr>tag = True, base = 0, cap_length = 16, offset = 0,
               permissions = {PermRead, PermWrite, PermExecute}, alloc_id = 0\<rparr>"
  let ?m = "(new_arena 32)\<lparr>bump := 16,
              table := [\<lparr>alloc_base = 0, alloc_length = 16, live = True\<rparr>]\<rparr>"
  let ?c = "offset_by ?cap 9"
  have al: "allocate 16 (new_arena 32) = Inr (?cap, ?m)"
    by (simp add: allocate_def remaining_def new_arena_def)
  have v: "is_valid ?c ?m" by (simp add: is_valid_def is_live_def offset_by_def)
  have wa: "within_arena ?c ?m"
    by (simp add: within_arena_def base_abs_def offset_by_def new_arena_def)
  have f: "offset ?c = 9" "cap_length ?c = 16" "PermWrite \<in> permissions ?c"
    "access_start ?c ?m = 9" "length (arena_bytes ?m) = 32"
    by (simp_all add: offset_by_def access_start_def base_abs_def new_arena_def)
  from access_in_bounds[OF v wa, of 18446744073709551608 "[]"] f
  have r_big: "read ?c 18446744073709551608 ?m = Inl BoundsViolation" by simp
  from access_in_bounds[OF v wa, of 1 "[]"] f
  obtain bs where "read ?c 1 ?m = Inr bs" "length bs = 1" "bs ! 0 = arena_bytes ?m ! 9"
    by auto
  then have r_one: "read ?c 1 ?m = Inr [arena_bytes ?m ! 9]"
    by (cases bs) auto
  from access_in_bounds[OF v wa, of 0 "[1, 2, 3, 4, 5, 6, 7, 8]"] f
  have w8: "write_cap ?c [1, 2, 3, 4, 5, 6, 7, 8] ?m = Inl BoundsViolation" by simp
  from access_in_bounds[OF v wa, of 0 "[1, 2, 3, 4, 5, 6, 7]"] f
  obtain m' where w7: "write_cap ?c [1, 2, 3, 4, 5, 6, 7] ?m = Inr m'"
    and wr: "\<forall>i<7. arena_bytes m' ! (9 + i) = [1, 2, 3, 4, 5, 6, 7] ! i"
    and fr: "\<forall>a<32. a < 9 \<or> 9 + 7 \<le> a \<longrightarrow> arena_bytes m' ! a = arena_bytes ?m ! a"
    by auto
  from wr have b15: "arena_bytes m' ! (9 + 6) = 7" by (elim allE[of _ 6]) simp
  from fr have b16: "arena_bytes m' ! 16 = arena_bytes ?m ! 16" by (elim allE[of _ 16]) simp
  from w7 b15 b16 have ex: "\<exists>m'. write_cap ?c [1, 2, 3, 4, 5, 6, 7] ?m = Inr m'
                \<and> arena_bytes m' ! (9 + 6) = 7 \<and> arena_bytes m' ! 16 = arena_bytes ?m ! 16"
    by blast
  from v wa r_big r_one w8 ex show ?thesis
    by (simp only: al sum.case prod.case simp_thms)
qed

subsection \<open>Monotone derivation\<close>

lemma narrow_Inr:
  "narrow c b l = Inr d \<longleftrightarrow>
     tag c \<and> 0 \<le> b \<and> b + int l \<le> int (cap_length c)
     \<and> d = c\<lparr>tag := True, base := base c + nat b, cap_length := l, offset := 0\<rparr>"
  by (auto simp: narrow_def)

lemma restrict_permissions_Inr:
  "restrict_permissions c ps = Inr d \<longleftrightarrow> ps \<subseteq> permissions c \<and> d = c\<lparr>permissions := ps\<rparr>"
  by (auto simp: restrict_permissions_def)

lemma derives_monotone:
  "derives c d \<Longrightarrow>
   base c \<le> base d \<and> base d + cap_length d \<le> base c + cap_length c
   \<and> permissions d \<subseteq> permissions c \<and> alloc_id d = alloc_id c"
proof (induction rule: derives.induct)
  case (derives_refl c)
  show ?case by simp
next
  case (derives_narrow c d b l e)
  from derives_narrow.hyps(2) have "0 \<le> b" "b + int l \<le> int (cap_length d)"
    and "e = d\<lparr>tag := True, base := base d + nat b, cap_length := l, offset := 0\<rparr>"
    by (simp_all add: narrow_Inr)
  with derives_narrow.IH show ?case by auto
next
  case (derives_restrict c d ps e)
  from derives_restrict.hyps(2) have "ps \<subseteq> permissions d" "e = d\<lparr>permissions := ps\<rparr>"
    by (simp_all add: restrict_permissions_Inr)
  with derives_restrict.IH show ?case by auto
qed

text \<open>
  C4. Whatever capability \<open>d\<close> is reached from \<open>c\<close> by successful \<open>narrow\<close> and
  \<open>restrict_permissions\<close> steps, its absolute base is at or after that of \<open>c\<close>, its
  absolute end at or before that of \<open>c\<close>, and its permissions are among those of \<open>c\<close>.
  \<open>narrow\<close> succeeds exactly when the tag is set, the new relative base is not negative
  and the new relative base plus the new length is at most the length; its result is
  tagged and keeps permissions and allocation id. \<open>restrict_permissions\<close> succeeds
  exactly for a subset of the permissions and keeps bounds and tag.
\<close>

theorem derivation_monotone:
  "(derives c d \<longrightarrow>
      base_abs c m \<le> base_abs d m
      \<and> base_abs d m + cap_length d \<le> base_abs c m + cap_length c
      \<and> permissions d \<subseteq> permissions c)
   \<and> ((\<exists>e. narrow c b l = Inr e) \<longleftrightarrow> tag c \<and> 0 \<le> b \<and> b + int l \<le> int (cap_length c))
   \<and> (narrow c b l = Inr e \<longrightarrow>
        derives c e \<and> tag e \<and> permissions e = permissions c \<and> alloc_id e = alloc_id c
        \<and> base e = base c + nat b \<and> cap_length e = l)
   \<and> ((\<exists>e. restrict_permissions c ps = Inr e) \<longleftrightarrow> ps \<subseteq> permissions c)
   \<and> (restrict_permissions c ps = Inr e' \<longrightarrow>
        derives c e' \<and> permissions e' = ps \<and> tag e' = tag c
        \<and> base e' = base c \<and> cap_length e' = cap_length c)"
proof (intro conjI impI)
  assume "derives c d"
  from derives_monotone[OF this]
  show "base_abs c m \<le> base_abs d m"
    and "base_abs d m + cap_length d \<le> base_abs c m + cap_length c"
    and "permissions d \<subseteq> permissions c"
    by (simp_all add: base_abs_def)
next
  show "(\<exists>e. narrow c b l = Inr e) \<longleftrightarrow> tag c \<and> 0 \<le> b \<and> b + int l \<le> int (cap_length c)"
    by (simp add: narrow_Inr)
next
  assume n: "narrow c b l = Inr e"
  from derives_narrow[OF derives_refl n] show "derives c e" .
  from n show "tag e" "permissions e = permissions c" "alloc_id e = alloc_id c"
    "base e = base c + nat b" "cap_length e = l"
    by (simp_all add: narrow_Inr)
next
  show "(\<exists>e. restrict_permissions c ps = Inr e) \<longleftrightarrow> ps \<subseteq> permissions c"
    by (simp add: restrict_permissions_Inr)
next
  assume r: "restrict_permissions c ps = Inr e'"
  from derives_restrict[OF derives_refl r] show "derives c e'" .
  from r show "permissions e' = ps" "tag e' = tag c" "base e' = base c"
    "cap_length e' = cap_length c"
    by (simp_all add: restrict_permissions_Inr)
qed

text \<open>
  A 16-byte capability narrowed to the 8 bytes from relative base 4, then made
  read-only; an attempt to narrow the result to 9 bytes, or to give it back the write
  permission, faults.
\<close>

theorem derivation_monotone_witness:
  "(case allocate 16 (new_arena 32) of
      Inl f \<Rightarrow> False
    | Inr (cap, m) \<Rightarrow>
        (case narrow cap 4 8 of
           Inl f \<Rightarrow> False
         | Inr d \<Rightarrow>
             (case restrict_permissions d {PermRead} of
                Inl f \<Rightarrow> False
              | Inr e \<Rightarrow>
                  derives cap e
                  \<and> base_abs cap m \<le> base_abs e m
                  \<and> base_abs e m + cap_length e \<le> base_abs cap m + cap_length cap
                  \<and> permissions e \<subseteq> permissions cap
                  \<and> base e = 4 \<and> cap_length e = 8
                  \<and> narrow e 0 9 = Inl BoundsViolation
                  \<and> restrict_permissions e {PermRead, PermWrite} = Inl InvalidPermissions)))"
proof -
  let ?cap = "\<lparr>tag = True, base = 0, cap_length = 16, offset = 0,
               permissions = {PermRead, PermWrite, PermExecute}, alloc_id = 0\<rparr>"
  let ?m = "(new_arena 32)\<lparr>bump := 16,
              table := [\<lparr>alloc_base = 0, alloc_length = 16, live = True\<rparr>]\<rparr>"
  let ?d = "?cap\<lparr>tag := True, base := 4, cap_length := 8, offset := 0\<rparr>"
  let ?e = "?d\<lparr>permissions := {PermRead}\<rparr>"
  have al: "allocate 16 (new_arena 32) = Inr (?cap, ?m)"
    by (simp add: allocate_def remaining_def new_arena_def)
  have n: "narrow ?cap 4 8 = Inr ?d" by (simp add: narrow_def)
  have r: "restrict_permissions ?d {PermRead} = Inr ?e"
    by (simp add: restrict_permissions_def)
  from derivation_monotone[of ?cap ?d ?m 4 8 ?d "{PermRead}" ?d] n
  have d1: "derives ?cap ?d" by blast
  from derivation_monotone[of ?d ?e ?m 0 9 ?e "{PermRead}" ?e] r
  have d2: "derives ?d ?e"
    and no9: "\<not> (\<exists>x. narrow ?e 0 9 = Inr x)"
    by (blast, simp add: narrow_def)
  from d1 r have d3: "derives ?cap ?e" by (rule derives_restrict)
  from derivation_monotone[of ?cap ?e ?m 0 9 ?e "{PermRead}" ?e] d3
  have mono: "base_abs ?cap ?m \<le> base_abs ?e ?m"
    "base_abs ?e ?m + cap_length ?e \<le> base_abs ?cap ?m + cap_length ?cap"
    "permissions ?e \<subseteq> permissions ?cap"
    by blast+
  have rest: "base ?e = 4" "cap_length ?e = 8"
    "narrow ?e 0 9 = Inl BoundsViolation"
    "restrict_permissions ?e {PermRead, PermWrite} = Inl InvalidPermissions"
    by (simp_all add: narrow_def restrict_permissions_def)
  from d3 mono rest show ?thesis
    by (simp only: al n r sum.case prod.case simp_thms)
qed

end
